theory Spec2Isabelle
  imports Main "HOL-Library.Word"
begin

section \<open>Message shares of the publishers\<close>

text \<open>
  \<^verbatim>\<open>main\<close> obtains the per-publisher message counts from
  \<^verbatim>\<open>bench.MsgsPerClient(*numMsgs, *numPubs)\<close> (main.go, line 130) and hands
  \<^verbatim>\<open>pubCounts[i]\<close> to publisher \<open>i\<close>.  The function lives in the imported
  package \<^verbatim>\<open>github.com/nats-io/nats.go/bench\<close>, whose text is not part of the
  sources at hand.
\<close>

text \<open>
  Modelled from the spec: \<^verbatim>\<open>bench.MsgsPerClient\<close> is missing from the sources.
  The spec says: split the total as evenly as possible; if it is not evenly divisible, the
  first \<open>total mod publisherCount\<close> publishers each receive one extra message.  Counts are
  natural numbers, as the spec's RunConfig invariant (counts \<open>\<ge> 0\<close>) has them.
  The model fills every slot with the quotient and then walks over the first
  \<open>total mod publisherCount\<close> slots, adding one to each.
\<close>

fun add_extra :: "nat \<Rightarrow> nat list \<Rightarrow> nat list" where
  "add_extra 0 counts = counts"
| "add_extra (Suc k) [] = []"
| "add_extra (Suc k) (c # counts) = Suc c # add_extra k counts"

definition MessageShares :: "nat \<Rightarrow> nat \<Rightarrow> nat list" where
  "MessageShares n publisherCount =
     add_extra (n mod publisherCount)
       (replicate publisherCount (n div publisherCount))"

section \<open>Command line and connect options\<close>

text \<open>
  The flags of \<^verbatim>\<open>main\<close> (main.go, lines 56 to 76), after \<^verbatim>\<open>flag.Parse\<close>.
  Go's \<^verbatim>\<open>int\<close> flags are integers, the others strings and booleans.
\<close>

record flags =
  clusterID :: string
  urls :: string
  numPubs :: int
  numSubs :: int
  numMsgs :: int
  syncPub :: bool
  messageSize :: int
  ignoreOld :: bool
  maxPubAcks :: int
  clientID :: string
  csvFile :: string
  queue :: string
  userCreds :: string
  certDir :: string
  certFile :: string
  certKey :: string
  user :: string
  pswd :: string

text \<open>The options handed to \<^verbatim>\<open>nats.Connect\<close>, in the order they are appended.\<close>

datatype nats_option =
    Name string
  | UserCredentials string
  | UserInfo string string
  | RootCAs "string list"
  | ClientCert string string

text \<open>
  Every \<^verbatim>\<open>log.Fatal\<close>/\<^verbatim>\<open>log.Fatalf\<close> of the program ends the whole process;
  the constructors name the call sites.
\<close>

datatype fatal =
    Usage
  | PublisherCantConnect
  | SubscriberCantConnect
  | SubscriberCantSubscribe
  | ConnectionLost
  | PublishAsyncFailed
  | PublishFailed
  | AckFailed

text \<open>\<^verbatim>\<open>strings.Contains(s, substr)\<close>: \<open>substr\<close> occurs somewhere within \<open>s\<close>.\<close>

fun has_prefix :: "string \<Rightarrow> string \<Rightarrow> bool" where
  "has_prefix s [] = True"
| "has_prefix [] (p # ps) = False"
| "has_prefix (c # s) (p # ps) = (c = p \<and> has_prefix s ps)"

fun Contains :: "string \<Rightarrow> string \<Rightarrow> bool" where
  "Contains [] substr = (substr = [])"
| "Contains (c # s) substr = (has_prefix (c # s) substr \<or> Contains s substr)"

text \<open>
  Lines 82 to 108 of \<^verbatim>\<open>main\<close>: the positional arguments must be exactly one, else
  \<^verbatim>\<open>usage()\<close> ends the process; then the connect options are collected.  For a URL that
  contains \<^verbatim>\<open>tls://\<close> a certificate directory, or else a certificate file together
  with its key, is required, else \<^verbatim>\<open>usage()\<close> again.  \<open>glob\<close> stands for the file
  system: it maps the certificate directory to the result of
  \<^verbatim>\<open>filepath.Glob(filepath.Join(dir, "*.pem"))\<close>.
\<close>

definition connect_options ::
  "(string \<Rightarrow> string list) \<Rightarrow> flags \<Rightarrow> string list \<Rightarrow> fatal + nats_option list" where
  "connect_options glob fl args =
     (if length args \<noteq> 1 then Inl Usage
      else
        let opts = [Name ''NATS Streaming Benchmark''];
            opts = (if userCreds fl \<noteq> [] then opts @ [UserCredentials (userCreds fl)]
                    else opts);
            opts = (if 0 < length (user fl) \<and> 0 < length (pswd fl)
                    then opts @ [UserInfo (user fl) (pswd fl)] else opts)
        in if Contains (urls fl) ''tls://'' then
             (if 0 < length (certDir fl) then Inr (opts @ [RootCAs (glob (certDir fl))])
              else if 0 < length (certFile fl) \<and> 0 < length (certKey fl)
              then Inr (opts @ [ClientCert (certFile fl) (certKey fl)])
              else Inl Usage)
           else Inr opts)"

text \<open>The flag defaults (lines 34 to 43 and 57 to 76), and a directory without certificates.\<close>

definition default_flags :: flags where
  "default_flags =
     \<lparr> clusterID = ''test-cluster'', urls = ''nats://127.0.0.1:4222'', numPubs = 10,
       numSubs = 0, numMsgs = 100000, syncPub = False, messageSize = 128,
       ignoreOld = False, maxPubAcks = 512, clientID = ''benchmark'', csvFile = [],
       queue = [], userCreds = [], certDir = [], certFile = [], certKey = [],
       user = [], pswd = [] \<rparr>"

definition no_pem_files :: "string \<Rightarrow> string list" where
  "no_pem_files dir = []"

text \<open>
  The condition under which, in the words of the spec, usage is printed: a wrong number of
  positional arguments, or a TLS URL with none of a credentials file, a certificate
  directory, or a certificate file together with its key.
\<close>

definition claimed_usage :: "flags \<Rightarrow> string list \<Rightarrow> bool" where
  "claimed_usage fl args =
     (length args \<noteq> 1
      \<or> (Contains (urls fl) ''tls://'' \<and> userCreds fl = [] \<and> certDir fl = []
         \<and> \<not> (certFile fl \<noteq> [] \<and> certKey fl \<noteq> [])))"

section \<open>The publisher worker\<close>

type_synonym byte = "8 word"
type_synonym time = nat

text \<open>
  The byte slice literal of \<^verbatim>\<open>runPublisher\<close> (main.go, line 172), which took the
  place of the commented-out \<^verbatim>\<open>msg = make([]byte, msgSize)\<close> of line 171.
\<close>

definition msg_literal :: "byte list" where
  "msg_literal = [
    10, 213, 14, 123, 34, 114, 101, 113, 117, 101, 115, 116, 95, 105, 100, 34, 58, 34, 56,
    97, 54, 54, 57, 53, 55, 34, 44, 34, 114, 101, 113, 117, 101, 115, 116, 95, 109, 101,
    116, 104, 111, 100, 34, 58, 34, 80, 79, 83, 84, 34, 44, 34, 114, 101, 113, 117, 101,
    115, 116, 95, 117, 114, 108, 34, 58, 34, 104, 116, 116, 112, 115, 58, 47, 47, 97, 112,
    105, 46, 105, 116, 101, 114, 97, 98, 108, 101, 46, 99, 111, 109, 47, 97, 112, 105, 47,
    101, 118, 101, 110, 116, 115, 47, 116, 114, 97, 99, 107, 34, 44, 34, 111, 112, 101,
    114, 97, 116, 105, 111, 110, 95, 116, 121, 112, 101, 34, 58, 34, 84, 114, 97, 99, 107,
    69, 118, 101, 110, 116, 34, 44, 34, 117, 115, 101, 114, 95, 103, 108, 111, 98, 97, 108,
    95, 105, 100, 34, 58, 34, 48, 100, 56, 57, 101, 53, 102, 99, 57, 99, 52, 56, 54, 97,
    51, 97, 99, 52, 100, 53, 54, 101, 56, 55, 51, 52, 98, 56, 51, 57, 53, 99, 102, 101, 34,
    44, 34, 116, 105, 109, 101, 95, 117, 110, 105, 120, 34, 58, 49, 54, 48, 52, 52, 56, 54,
    52, 56, 57, 44, 34, 112, 114, 111, 112, 101, 114, 116, 105, 101, 115, 34, 58, 34, 123,
    92, 34, 101, 118, 101, 110, 116, 78, 97, 109, 101, 92, 34, 58, 92, 34, 97, 99, 116,
    105, 118, 105, 116, 121, 112, 97, 103, 101, 92, 34, 44, 92, 34, 99, 114, 101, 97, 116,
    101, 100, 65, 116, 92, 34, 58, 49, 54, 48, 52, 52, 56, 54, 52, 56, 55, 57, 55, 50, 44,
    92, 34, 100, 97, 116, 97, 70, 105, 101, 108, 100, 115, 92, 34, 58, 123, 92, 34, 97, 99,
    116, 105, 118, 105, 116, 121, 73, 68, 92, 34, 58, 52, 53, 54, 48, 56, 44, 92, 34, 97,
    99, 116, 105, 118, 105, 116, 121, 73, 109, 97, 103, 101, 92, 34, 58, 92, 34, 47, 97,
    99, 116, 105, 118, 105, 116, 105, 101, 115, 47, 110, 117, 103, 121, 104, 115, 101, 101,
    110, 119, 52, 112, 122, 121, 107, 122, 118, 102, 100, 117, 46, 106, 112, 103, 92, 34,
    44, 92, 34, 97, 99, 116, 105, 118, 105, 116, 121, 78, 97, 109, 101, 92, 34, 58, 92, 34,
    231, 141, 168, 229, 174, 182, 229, 132, 170, 230, 131, 160, 239, 188, 154, 233, 166,
    153, 230, 184, 175, 229, 155, 155, 229, 173, 163, 233, 133, 146, 229, 186, 151, 228,
    189, 143, 229, 174, 191, 229, 165, 151, 233, 164, 144, 92, 34, 44, 92, 34, 97, 99, 116,
    105, 118, 105, 116, 121, 80, 114, 105, 99, 101, 92, 34, 58, 92, 34, 72, 75, 36, 50, 44,
    53, 51, 48, 92, 34, 44, 92, 34, 98, 111, 111, 107, 105, 110, 103, 78, 117, 109, 98,
    101, 114, 92, 34, 58, 49, 51, 54, 54, 44, 92, 34, 99, 97, 116, 101, 103, 111, 114, 121,
    73, 68, 92, 34, 58, 51, 44, 92, 34, 99, 105, 116, 121, 73, 68, 92, 34, 58, 50, 44, 92,
    34, 99, 105, 116, 121, 78, 97, 109, 101, 92, 34, 58, 92, 34, 233, 166, 153, 230, 184,
    175, 92, 34, 44, 92, 34, 99, 105, 116, 121, 85, 82, 76, 92, 34, 58, 92, 34, 104, 116,
    116, 112, 115, 58, 47, 47, 119, 119, 119, 46, 107, 108, 111, 111, 107, 46, 99, 111,
    109, 47, 122, 104, 45, 72, 75, 47, 99, 105, 116, 121, 47, 50, 92, 34, 44, 92, 34, 99,
    111, 117, 110, 116, 114, 121, 73, 68, 92, 34, 58, 50, 44, 92, 34, 112, 97, 103, 101,
    85, 82, 76, 92, 34, 58, 92, 34, 104, 116, 116, 112, 115, 58, 47, 47, 119, 119, 119, 46,
    107, 108, 111, 111, 107, 46, 99, 111, 109, 47, 122, 104, 45, 72, 75, 47, 97, 99, 116,
    105, 118, 105, 116, 121, 47, 52, 53, 54, 48, 56, 92, 34, 44, 92, 34, 112, 108, 97, 116,
    102, 111, 114, 109, 92, 34, 58, 92, 34, 65, 110, 100, 114, 111, 105, 100, 92, 34, 44,
    92, 34, 114, 101, 99, 111, 109, 109, 101, 110, 100, 101, 100, 65, 99, 116, 105, 118,
    105, 116, 121, 49, 92, 34, 58, 123, 92, 34, 73, 109, 97, 103, 101, 85, 82, 76, 92, 34,
    58, 92, 34, 104, 116, 116, 112, 115, 58, 47, 47, 114, 101, 115, 46, 107, 108, 111, 111,
    107, 46, 99, 111, 109, 47, 105, 109, 97, 103, 101, 47, 117, 112, 108, 111, 97, 100, 47,
    97, 99, 116, 105, 118, 105, 116, 105, 101, 115, 47, 102, 57, 53, 98, 53, 101, 101, 102,
    45, 65, 113, 117, 97, 76, 117, 110, 97, 45, 78, 105, 103, 104, 116, 45, 67, 114, 117,
    105, 115, 101, 46, 106, 112, 103, 92, 34, 44, 92, 34, 78, 97, 109, 101, 92, 34, 58, 92,
    34, 229, 188, 181, 228, 191, 157, 228, 187, 148, 232, 153, 159, 233, 171, 148, 233,
    169, 151, 228, 185, 139, 230, 151, 133, 32, 40, 230, 140, 135, 229, 174, 154, 230, 153,
    130, 229, 128, 153, 232, 178, 183, 51, 233, 128, 129, 49, 41, 92, 34, 44, 92, 34, 80,
    114, 105, 99, 101, 92, 34, 58, 92, 34, 72, 75, 36, 50, 48, 49, 46, 48, 92, 34, 44, 92,
    34, 98, 111, 111, 107, 105, 110, 103, 78, 117, 109, 98, 101, 114, 92, 34, 58, 49, 49,
    56, 53, 49, 54, 44, 92, 34, 112, 97, 103, 101, 85, 82, 76, 92, 34, 58, 92, 34, 104,
    116, 116, 112, 115, 58, 47, 47, 119, 119, 119, 46, 107, 108, 111, 111, 107, 46, 99,
    111, 109, 47, 122, 104, 45, 72, 75, 47, 97, 99, 116, 105, 118, 105, 116, 121, 47, 54,
    53, 57, 92, 34, 44, 92, 34, 114, 101, 118, 105, 101, 119, 78, 117, 109, 98, 101, 114,
    92, 34, 58, 53, 57, 50, 57, 44, 92, 34, 114, 101, 118, 105, 101, 119, 82, 97, 116, 105,
    110, 103, 92, 34, 58, 52, 46, 55, 125, 44, 92, 34, 114, 101, 99, 111, 109, 109, 101,
    110, 100, 101, 100, 65, 99, 116, 105, 118, 105, 116, 121, 50, 92, 34, 58, 123, 92, 34,
    73, 109, 97, 103, 101, 85, 82, 76, 92, 34, 58, 92, 34, 104, 116, 116, 112, 115, 58, 47,
    47, 114, 101, 115, 46, 107, 108, 111, 111, 107, 46, 99, 111, 109, 47, 105, 109, 97,
    103, 101, 47, 117, 112, 108, 111, 97, 100, 47, 97, 99, 116, 105, 118, 105, 116, 105,
    101, 115, 47, 111, 56, 120, 106, 107, 49, 113, 97, 121, 103, 114, 109, 117, 115, 119,
    108, 103, 118, 103, 107, 46, 106, 112, 103, 92, 34, 44, 92, 34, 78, 97, 109, 101, 92,
    34, 58, 92, 34, 227, 128, 144, 229, 141, 179, 232, 178, 183, 229, 141, 179, 231, 148,
    168, 227, 128, 145, 233, 166, 153, 230, 184, 175, 230, 169, 159, 229, 160, 180, 229,
    191, 171, 231, 183, 154, 232, 187, 138, 231, 165, 168, 239, 188, 136, 230, 142, 131,
    81, 82, 32, 67, 111, 100, 101, 231, 155, 180, 230, 142, 165, 229, 133, 165, 233, 150,
    152, 239, 188, 137, 92, 34, 44, 92, 34, 80, 114, 105, 99, 101, 92, 34, 58, 92, 34, 72,
    75, 36, 52, 57, 46, 48, 92, 34, 44, 92, 34, 98, 111, 111, 107, 105, 110, 103, 78, 117,
    109, 98, 101, 114, 92, 34, 58, 52, 48, 50, 57, 48, 54, 56, 44, 92, 34, 112, 97, 103,
    101, 85, 82, 76, 92, 34, 58, 92, 34, 104, 116, 116, 112, 115, 58, 47, 47, 119, 119,
    119, 46, 107, 108, 111, 111, 107, 46, 99, 111, 109, 47, 122, 104, 45, 72, 75, 47, 97,
    99, 116, 105, 118, 105, 116, 121, 47, 55, 49, 92, 34, 44, 92, 34, 114, 101, 118, 105,
    101, 119, 78, 117, 109, 98, 101, 114, 92, 34, 58, 50, 57, 51, 56, 50, 52, 44, 92, 34,
    114, 101, 118, 105, 101, 119, 82, 97, 116, 105, 110, 103, 92, 34, 58, 52, 46, 57, 125,
    44, 92, 34, 114, 101, 99, 111, 109, 109, 101, 110, 100, 101, 100, 65, 99, 116, 105,
    118, 105, 116, 121, 51, 92, 34, 58, 123, 92, 34, 73, 109, 97, 103, 101, 85, 82, 76, 92,
    34, 58, 92, 34, 104, 116, 116, 112, 115, 58, 47, 47, 114, 101, 115, 46, 107, 108, 111,
    111, 107, 46, 99, 111, 109, 47, 105, 109, 97, 103, 101, 47, 117, 112, 108, 111, 97,
    100, 47, 97, 99, 116, 105, 118, 105, 116, 105, 101, 115, 47, 119, 103, 119, 55, 102,
    56, 110, 48, 110, 108, 122, 106, 48, 54, 51, 113, 122, 121, 107, 52, 46, 106, 112, 103,
    92, 34, 44, 92, 34, 78, 97, 109, 101, 92, 34, 58, 92, 34, 227, 128, 144, 231, 141, 168,
    229, 174, 182, 229, 132, 170, 230, 131, 160, 227, 128, 145, 233, 166, 153, 230, 184,
    175, 232, 191, 170, 229, 163, 171, 229, 176, 188, 230, 168, 130, 229, 156, 146, 233,
    150, 128, 231, 165, 168, 32, 43, 32, 229, 146, 150, 229, 149, 161, 229, 132, 170, 230,
    131, 160, 92, 34, 44, 92, 34, 80, 114, 105, 99, 101, 92, 34, 58, 92, 34, 72, 75, 36,
    53, 55, 51, 46, 48, 92, 34, 44, 92, 34, 98, 111, 111, 107, 105, 110, 103, 78, 117, 109,
    98, 101, 114, 92, 34, 58, 50, 55, 53, 53, 52, 57, 56, 44, 92, 34, 112, 97, 103, 101,
    85, 82, 76, 92, 34, 58, 92, 34, 104, 116, 116, 112, 115, 58, 47, 47, 119, 119, 119, 46,
    107, 108, 111, 111, 107, 46, 99, 111, 109, 47, 122, 104, 45, 72, 75, 47, 97, 99, 116,
    105, 118, 105, 116, 121, 47, 51, 57, 92, 34, 44, 92, 34, 114, 101, 118, 105, 101, 119,
    78, 117, 109, 98, 101, 114, 92, 34, 58, 49, 50, 56, 52, 54, 57, 44, 92, 34, 114, 101,
    118, 105, 101, 119, 82, 97, 116, 105, 110, 103, 92, 34, 58, 52, 46, 56, 125, 44, 92,
    34, 114, 101, 118, 105, 101, 119, 78, 117, 109, 98, 101, 114, 92, 34, 58, 49, 57, 50,
    44, 92, 34, 114, 101, 118, 105, 101, 119, 82, 97, 116, 105, 110, 103, 92, 34, 58, 52,
    46, 55, 44, 92, 34, 118, 101, 114, 116, 105, 99, 97, 108, 84, 121, 112, 101, 92, 34,
    58, 92, 34, 65, 99, 116, 105, 118, 105, 116, 105, 101, 115, 32, 92, 92, 117, 48, 48,
    50, 54, 32, 69, 120, 112, 101, 114, 105, 101, 110, 99, 101, 115, 92, 34, 125, 44, 92,
    34, 117, 115, 101, 114, 73, 100, 92, 34, 58, 92, 34, 48, 100, 56, 57, 101, 53, 102, 99,
    57, 99, 52, 56, 54, 97, 51, 97, 99, 52, 100, 53, 54, 101, 56, 55, 51, 52, 98, 56, 51,
    57, 53, 99, 102, 101, 92, 34, 125, 34, 125, 18, 30, 10, 8, 75, 77, 81, 45, 84, 101,
    115, 116, 18, 8, 75, 77, 81, 45, 84, 101, 115, 116, 40, 136, 189, 254, 221, 252, 139,
    146, 162, 22]"

text \<open>
  Lines 169 to 173: \<^verbatim>\<open>var msg []byte\<close> stays \<^verbatim>\<open>nil\<close> (the empty slice) unless
  \<^verbatim>\<open>msgSize > 0\<close>, in which case it is the literal.
\<close>

definition publisher_msg :: "int \<Rightarrow> byte list" where
  "publisher_msg msgSize = (if 0 < msgSize then msg_literal else [])"

text \<open>
  What \<^verbatim>\<open>bench.NewSample(jobCount, msgSize, start, end, nc)\<close> is given: the message
  count, the message size and the two timestamps.
\<close>

record sample =
  jobMsgCnt :: int
  msgSz :: int
  sStart :: time
  sEnd :: time

text \<open>
  The parameters of \<^verbatim>\<open>runPublisher\<close> that its body after the connection setup reads:
  \<^verbatim>\<open>numMsgs\<close> (the worker's share), \<^verbatim>\<open>msgSize\<close> and \<^verbatim>\<open>sync\<close>.
\<close>

record pub_args =
  p_numMsgs :: int
  p_msgSize :: int
  p_sync :: bool

text \<open>
  The worker goroutine is at one of these places: before line 169, at the head of the
  loop of line 189, at the receive of line 195, at the head of the loop of line 197, at
  line 206, at lines 207 to 209, or past the end.
\<close>

datatype pub_pc = PubInit | AsyncLoop | AsyncWait | SyncLoop | AtPubSample | PubClosing | PubDone

text \<open>
  The state of one publisher: the locals \<^verbatim>\<open>msg\<close>, \<^verbatim>\<open>published\<close>, \<^verbatim>\<open>start\<close>
  and the loop variable \<^verbatim>\<open>i\<close>; the unbuffered channel \<^verbatim>\<open>ch\<close>, of which only
  "the acknowledgment handler is blocked in its send" has to be remembered; the number of
  \<^verbatim>\<open>PublishAsync\<close> calls whose handler has not run yet; the payloads handed to the
  collaborator; the sample given to \<^verbatim>\<open>benchmark.AddPubSample\<close>; and whether a
  \<^verbatim>\<open>log.Fatal\<close> has ended the process.  Go's \<^verbatim>\<open>int\<close> is 64 bits wide on the
  platform of the Dockerfile; \<^verbatim>\<open>i\<close> and \<^verbatim>\<open>published\<close> go up by one per call, and
  are integers here.
\<close>

record publisher =
  ppc :: pub_pc
  msg :: "byte list"
  idx :: int
  published :: int
  pstart :: time
  acb_blocked :: bool
  unacked :: nat
  wire :: "byte list list"
  psample :: "sample option"
  pfatal :: "fatal option"

definition init_publisher :: publisher where
  "init_publisher =
     \<lparr> ppc = PubInit, msg = [], idx = 0, published = 0, pstart = 0, acb_blocked = False,
       unacked = 0, wire = [], psample = None, pfatal = None \<rparr>"

text \<open>
  What happens to a publisher: \<open>Call t err\<close>, the worker goroutine executes its next
  statement, the clock reads \<open>t\<close>, and \<open>err\<close> tells whether the collaborator answers
  with an error should the statement be a publish call; \<open>Ack err\<close>, the collaborator
  invokes the acknowledgment handler of an outstanding \<^verbatim>\<open>PublishAsync\<close>, with an
  error or without; \<open>PubConnLost\<close>, the collaborator invokes the connection-lost handler.
\<close>

datatype pub_event = Call time bool | Ack bool | PubConnLost

text \<open>
  The handler \<^verbatim>\<open>acb\<close> (lines 180 to 188).  The channel is unbuffered: the send goes
  through at once when the worker is waiting in its receive of line 195, and blocks the
  handler otherwise.
\<close>

definition acb :: "pub_args \<Rightarrow> bool \<Rightarrow> publisher \<Rightarrow> publisher" where
  "acb a err p =
     (if err then p\<lparr>pfatal := Some AckFailed\<rparr>
      else
        let p1 = p\<lparr>published := published p + 1\<rparr>
        in if p_numMsgs a \<le> published p1
           then (if ppc p1 = AsyncWait then p1\<lparr>ppc := AtPubSample\<rparr>
                 else p1\<lparr>acb_blocked := True\<rparr>)
           else p1)"

text \<open>The next statement of the worker (lines 169 to 209); \<open>None\<close> when it has to wait.\<close>

definition pub_call :: "pub_args \<Rightarrow> time \<Rightarrow> bool \<Rightarrow> publisher \<Rightarrow> publisher option" where
  "pub_call a t err p =
     (case ppc p of
        PubInit \<Rightarrow>
          Some (p\<lparr>msg := publisher_msg (p_msgSize a), published := 0, pstart := t, idx := 0,
                  ppc := (if p_sync a then SyncLoop else AsyncLoop)\<rparr>)
      | AsyncLoop \<Rightarrow>
          if idx p < p_numMsgs a then
            (if err then Some (p\<lparr>pfatal := Some PublishAsyncFailed\<rparr>)
             else Some (p\<lparr>wire := wire p @ [msg p], unacked := unacked p + 1,
                          idx := idx p + 1\<rparr>))
          else Some (p\<lparr>ppc := AsyncWait\<rparr>)
      | AsyncWait \<Rightarrow>
          if acb_blocked p then Some (p\<lparr>acb_blocked := False, ppc := AtPubSample\<rparr>)
          else None
      | SyncLoop \<Rightarrow>
          if idx p < p_numMsgs a then
            (if err then Some (p\<lparr>pfatal := Some PublishFailed\<rparr>)
             else Some (p\<lparr>wire := wire p @ [msg p], published := published p + 1,
                          idx := idx p + 1\<rparr>))
          else Some (p\<lparr>ppc := AtPubSample\<rparr>)
      | AtPubSample \<Rightarrow>
          Some (p\<lparr>psample := Some \<lparr>jobMsgCnt = p_numMsgs a, msgSz = p_msgSize a,
                                     sStart = pstart p, sEnd = t\<rparr>,
                  ppc := PubClosing\<rparr>)
      | PubClosing \<Rightarrow> Some (p\<lparr>ppc := PubDone\<rparr>)
      | PubDone \<Rightarrow> None)"

text \<open>
  One event.  Nothing happens after a \<^verbatim>\<open>log.Fatal\<close>; the handler runs for an
  outstanding call only, and one invocation at a time; the connection can be lost while it
  is open.
\<close>

definition pub_step :: "pub_args \<Rightarrow> pub_event \<Rightarrow> publisher \<Rightarrow> publisher option" where
  "pub_step a e p =
     (if pfatal p \<noteq> None then None
      else case e of
        Call t err \<Rightarrow> pub_call a t err p
      | Ack err \<Rightarrow>
          if 0 < unacked p \<and> \<not> acb_blocked p
          then Some (acb a err (p\<lparr>unacked := unacked p - 1\<rparr>)) else None
      | PubConnLost \<Rightarrow>
          if ppc p \<noteq> PubDone then Some (p\<lparr>pfatal := Some ConnectionLost\<rparr>) else None)"

fun pub_run :: "pub_args \<Rightarrow> pub_event list \<Rightarrow> publisher \<Rightarrow> publisher option" where
  "pub_run a [] p = Some p"
| "pub_run a (e # es) p =
     (case pub_step a e p of None \<Rightarrow> None | Some p' \<Rightarrow> pub_run a es p')"

text \<open>
  An asynchronous publisher whose notification cannot fire: the worker is before its
  receive or waits in it, no acknowledgment is outstanding, none is blocked in a send,
  and no sample has been recorded.
\<close>

definition waits_unfired :: "publisher \<Rightarrow> bool" where
  "waits_unfired p =
     ((ppc p = PubInit \<or> ppc p = AsyncLoop \<and> 0 \<le> idx p \<or> ppc p = AsyncWait)
      \<and> unacked p = 0 \<and> \<not> acb_blocked p \<and> psample p = None)"

text \<open>
  The notification has fired when the handler is in its send or the worker is past its
  receive.  For an asynchronous publisher with something to publish, as long as the
  process lives: the acknowledged and the outstanding calls are the calls made, no more
  than the share; the worker leaves the loop after the last call; and the notification
  has fired exactly when the acknowledgment counter has reached the share.
\<close>

definition fired :: "publisher \<Rightarrow> bool" where
  "fired p = (acb_blocked p \<or> ppc p = AtPubSample \<or> ppc p = PubClosing \<or> ppc p = PubDone)"

definition async_inv :: "pub_args \<Rightarrow> publisher \<Rightarrow> bool" where
  "async_inv a p =
     (pfatal p = None \<longrightarrow>
        (ppc p = PubInit \<longrightarrow> unacked p = 0 \<and> \<not> acb_blocked p)
        \<and> (ppc p \<noteq> PubInit \<longrightarrow>
             ppc p \<noteq> SyncLoop \<and> 0 \<le> published p
             \<and> published p + int (unacked p) = idx p \<and> idx p \<le> p_numMsgs a
             \<and> (ppc p \<noteq> AsyncLoop \<longrightarrow> idx p = p_numMsgs a)
             \<and> (fired p \<longleftrightarrow> p_numMsgs a \<le> published p)))"

section \<open>The subscriber workers\<close>

text \<open>
  The two package variables \<^verbatim>\<open>qTotalRecv\<close> and \<^verbatim>\<open>qSubsLeft\<close> are
  \<^verbatim>\<open>int32\<close>.  They are integers here, and every value stored in them goes through
  \<open>int32\<close>, the two's complement wrap-around to 32 bits, as do the conversions
  \<^verbatim>\<open>int32(numMsgs)\<close> and \<^verbatim>\<open>int32(*numSubs)\<close>.
\<close>

definition int32 :: "int \<Rightarrow> int" where
  "int32 x = (x + 2147483648) mod 4294967296 - 2147483648"

definition AddInt32 :: "int \<Rightarrow> int \<Rightarrow> int" where
  "AddInt32 v delta = int32 (v + delta)"

text \<open>
  The worker goroutine of \<^verbatim>\<open>runSubscriber\<close>, once it has subscribed and passed
  \<^verbatim>\<open>startwg.Done()\<close>, is at one of these places: the receive of line 258, the receive
  of line 259, line 260, the decrement of line 264, line 267, line 268, lines 271 to 273,
  or past the end.
\<close>

datatype sub_pc =
  AwaitStart | AwaitEnd | AtSample | AtDecr | AtSubClose | AtPublish | AtConnClose | Finished

text \<open>
  The message handler \<^verbatim>\<open>mcb\<close> runs on the subscription's own goroutine, one
  invocation at a time.  A send on the channel \<^verbatim>\<open>ch\<close> (buffered, capacity 2)
  blocks while the buffer is full: the handler then hangs in its first send (line 234)
  or in its last one (line 238 or 242), holding the timestamp.
\<close>

datatype cb_state = Idle | BlockedFirst time | BlockedLast time

text \<open>What a worker does that others can observe, in the order it does it.\<close>

datatype action =
    AddSubSample sample
  | Decrement int
  | SubClose
  | PublishDone bool
  | ConnClose

text \<open>
  One subscriber: the local \<^verbatim>\<open>received\<close> (a 64-bit \<^verbatim>\<open>int\<close> that goes up by one
  per delivery, an integer here), the buffer of \<^verbatim>\<open>ch\<close>, the handler's state, the
  place of the worker, whether the subscription is open at the server, the locals
  \<^verbatim>\<open>start\<close>, \<^verbatim>\<open>end\<close> and \<^verbatim>\<open>sr\<close>, and the worker's actions so far.
\<close>

record subscriber =
  received :: int
  ch :: "time list"
  cb :: cb_state
  pc :: sub_pc
  sub_open :: bool
  start_ts :: time
  end_ts :: time
  sr :: int
  acts :: "action list"

text \<open>
  The subscriber side of a run: the two shared counters, the subscribers by index, the
  messages on the subject that the server has yet to hand to a member of the queue group,
  and whether a \<^verbatim>\<open>log.Fatal\<close> has ended the process.
\<close>

record sys =
  qTotalRecv :: int
  qSubsLeft :: int
  subs :: "subscriber list"
  pending :: nat
  terminated :: "fatal option"

definition isQueue :: "flags \<Rightarrow> bool" where
  "isQueue fl = (queue fl \<noteq> [])"

definition init_subscriber :: subscriber where
  "init_subscriber =
     \<lparr> received = 0, ch = [], cb = Idle, pc = AwaitStart, sub_open = True,
       start_ts = 0, end_ts = 0, sr = 0, acts = [] \<rparr>"

text \<open>
  Lines 117 to 125 of \<^verbatim>\<open>main\<close>: \<^verbatim>\<open>qSubsLeft\<close> is set for a queue group only, and
  one worker per index below \<^verbatim>\<open>*numSubs\<close> is started.  \<open>avail\<close> is the number of
  messages that the subject will carry for the group apart from the members' own.
\<close>

definition init_sys :: "flags \<Rightarrow> nat \<Rightarrow> sys" where
  "init_sys fl avail =
     \<lparr> qTotalRecv = 0,
       qSubsLeft = (if queue fl \<noteq> [] then int32 (numSubs fl) else 0),
       subs = replicate (nat (numSubs fl)) init_subscriber,
       pending = avail,
       terminated = None \<rparr>"

text \<open>A send on \<^verbatim>\<open>ch\<close> as the last statement of the handler.\<close>

definition send_last :: "time \<Rightarrow> subscriber \<Rightarrow> subscriber" where
  "send_last t m =
     (if length (ch m) < 2 then m\<lparr>ch := ch m @ [t]\<rparr> else m\<lparr>cb := BlockedLast t\<rparr>)"

text \<open>
  Lines 236 to 244 of \<^verbatim>\<open>mcb\<close>, on the shared counter \<open>q\<close> and the subscriber: in
  a queue group the shared counter is incremented atomically and its new value compared
  with \<^verbatim>\<open>int32(numMsgs)\<close>, otherwise the local counter is compared with
  \<^verbatim>\<open>numMsgs\<close>.  The clock reading \<open>t\<close> of the invocation stands for each
  \<^verbatim>\<open>time.Now()\<close> of the handler.
\<close>

definition mcb_tail :: "flags \<Rightarrow> time \<Rightarrow> int \<Rightarrow> subscriber \<Rightarrow> int \<times> subscriber" where
  "mcb_tail fl t q m =
     (if isQueue fl then
        (let q' = AddInt32 q 1
         in (q', if int32 (numMsgs fl) \<le> q' then send_last t m else m))
      else (q, if numMsgs fl \<le> received m then send_last t m else m))"

text \<open>Lines 232 to 235, then the rest unless the first send blocks.\<close>

definition mcb :: "flags \<Rightarrow> time \<Rightarrow> int \<Rightarrow> subscriber \<Rightarrow> int \<times> subscriber" where
  "mcb fl t q m =
     (let m1 = m\<lparr>received := received m + 1\<rparr>
      in if received m1 = 1 then
           (if length (ch m1) < 2 then mcb_tail fl t q (m1\<lparr>ch := ch m1 @ [t]\<rparr>)
            else (q, m1\<lparr>cb := BlockedFirst t\<rparr>))
         else mcb_tail fl t q m1)"

text \<open>
  A receive of the worker from \<^verbatim>\<open>ch\<close>: it waits while the buffer is empty; a value
  taken makes room, so a handler blocked in a send completes it and goes on.
\<close>

definition resume :: "flags \<Rightarrow> time \<Rightarrow> int \<Rightarrow> subscriber \<Rightarrow> int \<times> subscriber" where
  "resume fl t q m =
     (case cb m of
        Idle \<Rightarrow> (q, m)
      | BlockedLast v \<Rightarrow> (q, m\<lparr>ch := ch m @ [v], cb := Idle\<rparr>)
      | BlockedFirst v \<Rightarrow> mcb_tail fl t q (m\<lparr>ch := ch m @ [v], cb := Idle\<rparr>))"

definition recv :: "flags \<Rightarrow> time \<Rightarrow> int \<Rightarrow> subscriber \<Rightarrow> (time \<times> int \<times> subscriber) option" where
  "recv fl t q m =
     (case ch m of
        [] \<Rightarrow> None
      | v # rest \<Rightarrow> Some (v, resume fl t q (m\<lparr>ch := rest\<rparr>)))"

text \<open>
  The next statement of worker \<open>i\<close> (lines 258 to 273).  \<open>ok\<close> tells whether the
  collaborator accepts the publish of line 268; its result is dropped by the code.
\<close>

definition work :: "flags \<Rightarrow> nat \<Rightarrow> time \<Rightarrow> bool \<Rightarrow> sys \<Rightarrow> sys option" where
  "work fl i t ok s =
     (let m = subs s ! i in
      case pc m of
        AwaitStart \<Rightarrow>
          (case recv fl t (qTotalRecv s) m of
             None \<Rightarrow> None
           | Some (v, q, m') \<Rightarrow>
               Some (s\<lparr>qTotalRecv := q,
                       subs := (subs s)[i := m'\<lparr>start_ts := v, pc := AwaitEnd\<rparr>]\<rparr>))
      | AwaitEnd \<Rightarrow>
          (case recv fl t (qTotalRecv s) m of
             None \<Rightarrow> None
           | Some (v, q, m') \<Rightarrow>
               Some (s\<lparr>qTotalRecv := q,
                       subs := (subs s)[i := m'\<lparr>end_ts := v, pc := AtSample\<rparr>]\<rparr>))
      | AtSample \<Rightarrow>
          Some (s\<lparr>subs := (subs s)[i := m
                  \<lparr>acts := acts m @ [AddSubSample
                       \<lparr>jobMsgCnt = received m, msgSz = messageSize fl,
                         sStart = start_ts m, sEnd = end_ts m\<rparr>],
                    pc := (if isQueue fl then AtDecr else AtConnClose)\<rparr>]\<rparr>)
      | AtDecr \<Rightarrow>
          (let left = AddInt32 (qSubsLeft s) (- 1)
           in Some (s\<lparr>qSubsLeft := left,
                      subs := (subs s)[i := m
                        \<lparr>sr := left, acts := acts m @ [Decrement left],
                          pc := (if 0 < left then AtSubClose else AtConnClose)\<rparr>]\<rparr>))
      | AtSubClose \<Rightarrow>
          Some (s\<lparr>subs := (subs s)[i := m
                  \<lparr>sub_open := False, acts := acts m @ [SubClose], pc := AtPublish\<rparr>]\<rparr>)
      | AtPublish \<Rightarrow>
          Some (s\<lparr>pending := (if ok then pending s + 1 else pending s),
                  subs := (subs s)[i := m
                    \<lparr>acts := acts m @ [PublishDone ok], pc := AtConnClose\<rparr>]\<rparr>)
      | AtConnClose \<Rightarrow>
          Some (s\<lparr>subs := (subs s)[i := m
                  \<lparr>sub_open := False, acts := acts m @ [ConnClose], pc := Finished\<rparr>]\<rparr>)
      | Finished \<Rightarrow> None)"

text \<open>
  What happens on the subscriber side: \<open>Deliver i t\<close>, the server hands a message of the
  subject to subscriber \<open>i\<close>, whose handler runs with the clock at \<open>t\<close>; \<open>Work i t ok\<close>,
  worker \<open>i\<close> executes its next statement; \<open>ConnLost i\<close>, the connection-lost handler of
  subscriber \<open>i\<close> is invoked.
\<close>

datatype event = Deliver nat time | Work nat time bool | ConnLost nat

text \<open>
  One event.  A delivery is an invocation of the handler: it needs an open subscription
  and an idle handler; within a queue group it takes one of the pending messages, each of
  which goes to one member only, while a subscriber outside a group has a subscription of
  its own, to which the server delivers what the subject carries, however much that is.
  Nothing happens after a \<^verbatim>\<open>log.Fatalf\<close>.
\<close>

definition step :: "flags \<Rightarrow> event \<Rightarrow> sys \<Rightarrow> sys option" where
  "step fl e s =
     (if terminated s \<noteq> None then None
      else case e of
        Deliver i t \<Rightarrow>
          if i < length (subs s) \<and> sub_open (subs s ! i) \<and> cb (subs s ! i) = Idle
             \<and> (if isQueue fl then 0 < pending s else True)
          then (case mcb fl t (qTotalRecv s) (subs s ! i) of (q, m) \<Rightarrow>
                  Some (s\<lparr>qTotalRecv := q, subs := (subs s)[i := m],
                          pending := (if isQueue fl then pending s - 1 else pending s)\<rparr>))
          else None
      | Work i t ok \<Rightarrow> if i < length (subs s) then work fl i t ok s else None
      | ConnLost i \<Rightarrow>
          if i < length (subs s) \<and> pc (subs s ! i) \<noteq> Finished
          then Some (s\<lparr>terminated := Some ConnectionLost\<rparr>) else None)"

fun run :: "flags \<Rightarrow> event list \<Rightarrow> sys \<Rightarrow> sys option" where
  "run fl [] s = Some s"
| "run fl (e # es) s = (case step fl e s of None \<Rightarrow> None | Some s' \<Rightarrow> run fl es s')"

text \<open>The subscriber an event concerns.\<close>

fun target :: "event \<Rightarrow> nat option" where
  "target (Deliver i t) = Some i"
| "target (Work i t ok) = Some i"
| "target (ConnLost i) = None"

text \<open>
  Where a worker is determines what it has done so far: nothing before line 260, the
  sample at the decrement, and so on through the two branches of line 264.  This is the
  invariant behind the statements about the handshake.
\<close>

definition course :: "flags \<Rightarrow> subscriber \<Rightarrow> bool" where
  "course fl m =
     (case pc m of
        AwaitStart \<Rightarrow> acts m = [] \<and> sub_open m
      | AwaitEnd \<Rightarrow> acts m = [] \<and> sub_open m
      | AtSample \<Rightarrow> acts m = [] \<and> sub_open m
      | AtDecr \<Rightarrow> isQueue fl \<and> (\<exists>x. acts m = [AddSubSample x]) \<and> sub_open m
      | AtSubClose \<Rightarrow>
          isQueue fl \<and> (\<exists>x. acts m = [AddSubSample x, Decrement (sr m)]) \<and> 0 < sr m
          \<and> sub_open m
      | AtPublish \<Rightarrow>
          isQueue fl \<and> (\<exists>x. acts m = [AddSubSample x, Decrement (sr m), SubClose])
          \<and> 0 < sr m \<and> \<not> sub_open m
      | AtConnClose \<Rightarrow>
          (if isQueue fl then
             (if 0 < sr m
              then (\<exists>x ok. acts m = [AddSubSample x, Decrement (sr m), SubClose, PublishDone ok])
                   \<and> \<not> sub_open m
              else (\<exists>x. acts m = [AddSubSample x, Decrement (sr m)]) \<and> sub_open m)
           else (\<exists>x. acts m = [AddSubSample x]) \<and> sub_open m)
      | Finished \<Rightarrow>
          (if isQueue fl then
             (if 0 < sr m
              then (\<exists>x ok. acts m = [AddSubSample x, Decrement (sr m), SubClose,
                                      PublishDone ok, ConnClose])
              else (\<exists>x. acts m = [AddSubSample x, Decrement (sr m), ConnClose]))
           else (\<exists>x. acts m = [AddSubSample x, ConnClose]))
          \<and> \<not> sub_open m)"


text \<open>
  The clock readings of the deliveries to subscriber \<open>i\<close> among the events, in order.
\<close>

fun deliveries :: "nat \<Rightarrow> event list \<Rightarrow> time list" where
  "deliveries i [] = []"
| "deliveries i (Deliver j t # es) = (if j = i then t # deliveries i es else deliveries i es)"
| "deliveries i (Work j t ok # es) = deliveries i es"
| "deliveries i (ConnLost j # es) = deliveries i es"

text \<open>
  The timestamps a worker has taken off its channel so far, and the one a blocked handler
  holds.  The timestamps a subscriber outside a queue group is sent, given the deliveries
  to it: that of the first delivery (line 234), and that of every delivery from the
  \<open>n\<close>-th on (line 242), which for \<open>n \<le> 1\<close> is every delivery.
\<close>

definition taken :: "subscriber \<Rightarrow> time list" where
  "taken m =
     (case pc m of AwaitStart \<Rightarrow> [] | AwaitEnd \<Rightarrow> [start_ts m]
      | _ \<Rightarrow> [start_ts m, end_ts m])"

definition held :: "subscriber \<Rightarrow> time list" where
  "held m = (case cb m of Idle \<Rightarrow> [] | BlockedFirst v \<Rightarrow> [v] | BlockedLast v \<Rightarrow> [v])"

definition signals :: "int \<Rightarrow> time list \<Rightarrow> time list" where
  "signals n ds = (case ds of [] \<Rightarrow> [] | d # _ \<Rightarrow> d # drop (nat (n - 1)) ds)"

text \<open>
  The state of a subscriber's channel after the deliveries \<open>ds\<close> to it: the local
  counter has counted them, the handler never hangs in its first send, it hangs in its
  last send only while the buffer is full, nothing has been sent before the first delivery,
  and outside a queue group what the worker has taken, what the buffer holds and what the
  handler holds are, in this order, the timestamps sent.
\<close>

definition chan_inv :: "flags \<Rightarrow> time list \<Rightarrow> subscriber \<Rightarrow> bool" where
  "chan_inv fl ds m =
     (received m = int (length ds)
      \<and> (\<forall>v. cb m \<noteq> BlockedFirst v)
      \<and> length (ch m) \<le> 2
      \<and> (cb m \<noteq> Idle \<longrightarrow> length (ch m) = 2)
      \<and> (ds = [] \<longrightarrow> ch m = [] \<and> cb m = Idle \<and> pc m = AwaitStart)
      \<and> (\<not> isQueue fl \<longrightarrow> taken m @ ch m @ held m = signals (numMsgs fl) ds))"

text \<open>
  Counting: the subscribers with a property, the deliveries among the events, and the
  subscriber of the latest delivery.
\<close>

definition count_of :: "('a \<Rightarrow> bool) \<Rightarrow> 'a list \<Rightarrow> int" where
  "count_of P xs = int (length (filter P xs))"

fun is_Deliver :: "event \<Rightarrow> bool" where
  "is_Deliver (Deliver i t) = True"
| "is_Deliver (Work i t ok) = False"
| "is_Deliver (ConnLost i) = False"

definition delivered :: "event list \<Rightarrow> nat" where
  "delivered evs = length (filter is_Deliver evs)"

fun last_deliver :: "event list \<Rightarrow> nat option" where
  "last_deliver [] = None"
| "last_deliver (e # es) =
     (case last_deliver es of
        Some i \<Rightarrow> Some i
      | None \<Rightarrow> (case e of Deliver i t \<Rightarrow> Some i | Work i t ok \<Rightarrow> None
                 | ConnLost i \<Rightarrow> None))"

text \<open>
  A queue member has decremented \<^verbatim>\<open>qSubsLeft\<close> when its worker is past line 264; it
  has put a sentinel on the subject when a publish of line 268 has succeeded.
\<close>

definition decremented :: "subscriber \<Rightarrow> bool" where
  "decremented m =
     (pc m = AtSubClose \<or> pc m = AtPublish \<or> pc m = AtConnClose \<or> pc m = Finished)"

definition sent_ok :: "subscriber \<Rightarrow> bool" where
  "sent_ok m = (PublishDone True \<in> set (acts m))"

text \<open>
  The counters of a queue group after the events \<open>evs\<close>, with \<open>avail\<close> messages on
  the subject at the start: every member is there, \<^verbatim>\<open>qSubsLeft\<close> is the number of
  members that have not decremented it, \<^verbatim>\<open>qTotalRecv\<close> is the number of deliveries,
  and the deliveries and the pending messages together are the messages of the start and
  the sentinels.
\<close>

definition counters_inv :: "flags \<Rightarrow> nat \<Rightarrow> event list \<Rightarrow> sys \<Rightarrow> bool" where
  "counters_inv fl avail evs s =
     (int (length (subs s)) = numSubs fl
      \<and> qSubsLeft s = numSubs fl - count_of decremented (subs s)
      \<and> qTotalRecv s = int (delivered evs)
      \<and> int (pending s) + qTotalRecv s = int avail + count_of sent_ok (subs s))"

text \<open>
  The number of timestamps a subscriber has been sent: those its worker has taken, those
  in the buffer, and the one a blocked handler holds.
\<close>

definition got :: "subscriber \<Rightarrow> nat" where
  "got m = length (taken m) + length (ch m) + length (held m)"

text \<open>Runs in which every publish of a sentinel succeeds.\<close>

fun publish_ok :: "event \<Rightarrow> bool" where
  "publish_ok (Deliver i t) = True"
| "publish_ok (Work i t ok) = ok"
| "publish_ok (ConnLost i) = True"

definition all_ok :: "event list \<Rightarrow> bool" where
  "all_ok evs = list_all publish_ok evs"

text \<open>
  What keeps a queue group going, after the events \<open>evs\<close>: a member that has
  decremented \<^verbatim>\<open>qSubsLeft\<close> saw a value no less than the present one; a member that
  has had a delivery has been sent a timestamp; and the member \<open>m\<close> of the latest
  delivery is a member, has been sent two timestamps if the shared counter has reached
  the target, and, if nothing is pending and it is closing its connection or done, then
  its decrement returned zero or less (else its sentinel would be pending).
\<close>

definition live_inv :: "flags \<Rightarrow> event list \<Rightarrow> sys \<Rightarrow> bool" where
  "live_inv fl evs s =
     ((\<forall>m < length (subs s). decremented (subs s ! m) \<longrightarrow> qSubsLeft s \<le> sr (subs s ! m))
      \<and> (\<forall>m < length (subs s). deliveries m evs \<noteq> [] \<longrightarrow> 1 \<le> got (subs s ! m))
      \<and> (\<forall>m. last_deliver evs = Some m \<longrightarrow>
             m < length (subs s)
             \<and> (numMsgs fl \<le> qTotalRecv s \<longrightarrow> 2 \<le> got (subs s ! m))
             \<and> (pending s = 0
                  \<and> (pc (subs s ! m) = AtConnClose \<or> pc (subs s ! m) = Finished)
                  \<longrightarrow> sr (subs s ! m) \<le> 0)))"

text \<open>
  The statements a worker has still to execute, counting the publish twice, and the work a
  queue group has before it: the pending messages and the statements of its workers.
\<close>

fun weight :: "sub_pc \<Rightarrow> nat" where
  "weight AwaitStart = 8"
| "weight AwaitEnd = 7"
| "weight AtSample = 6"
| "weight AtDecr = 5"
| "weight AtSubClose = 4"
| "weight AtPublish = 3"
| "weight AtConnClose = 1"
| "weight Finished = 0"

definition effort :: "sys \<Rightarrow> nat" where
  "effort s = pending s + sum_list (map (\<lambda>m. weight (pc m)) (subs s))"

text \<open>A member whose decrement returned a value above zero: it is to publish.\<close>

definition took_branch :: "subscriber \<Rightarrow> bool" where
  "took_branch m = (decremented m \<and> 0 < sr m)"

section \<open>The asynchronous publisher with nothing to publish\<close>

lemma waits_unfired_call:
  assumes "p_numMsgs a \<le> 0" "\<not> p_sync a" "waits_unfired p" "pub_call a t err p = Some p'"
  shows "waits_unfired p'"
  using assms
  by (cases "ppc p") (auto simp: waits_unfired_def pub_call_def split: if_splits)

lemma waits_unfired_step:
  assumes "p_numMsgs a \<le> 0" "\<not> p_sync a" "waits_unfired p" "pub_step a e p = Some p'"
  shows "waits_unfired p'"
proof (cases e)
  case (Call t err)
  then show ?thesis using assms waits_unfired_call
    by (auto simp: pub_step_def split: if_splits)
next
  case (Ack err)
  then show ?thesis using assms
    by (auto simp: pub_step_def waits_unfired_def split: if_splits)
next
  case PubConnLost
  then show ?thesis using assms
    by (auto simp: pub_step_def waits_unfired_def split: if_splits)
qed

lemma waits_unfired_run:
  assumes "p_numMsgs a \<le> 0" "\<not> p_sync a"
  shows "waits_unfired p \<Longrightarrow> pub_run a evs p = Some p' \<Longrightarrow> waits_unfired p'"
proof (induction evs arbitrary: p)
  case Nil
  then show ?case by simp
next
  case (Cons e evs)
  from Cons.prems(2) obtain p1 where s: "pub_step a e p = Some p1"
    and r: "pub_run a evs p1 = Some p'"
    by (auto split: option.splits)
  from waits_unfired_step [OF assms Cons.prems(1) s] Cons.IH r show ?case by blast
qed

text \<open>
  With a share of at least one message the notification fires exactly when the counter
  reaches the share, and the worker can then go on to its end.
\<close>

lemma async_inv_step:
  assumes "1 \<le> p_numMsgs a" "\<not> p_sync a" "async_inv a p" "pub_step a e p = Some p'"
  shows "async_inv a p'"
proof (cases e)
  case (Call t err)
  then show ?thesis using assms
    by (cases "ppc p")
       (auto simp: pub_step_def pub_call_def async_inv_def fired_def split: if_splits)
next
  case (Ack err)
  then show ?thesis using assms
    by (cases "ppc p")
       (auto simp: pub_step_def acb_def Let_def async_inv_def fired_def split: if_splits)
next
  case PubConnLost
  then show ?thesis using assms
    by (auto simp: pub_step_def async_inv_def split: if_splits)
qed

lemma async_inv_run:
  assumes "1 \<le> p_numMsgs a" "\<not> p_sync a"
  shows "async_inv a p \<Longrightarrow> pub_run a evs p = Some p' \<Longrightarrow> async_inv a p'"
proof (induction evs arbitrary: p)
  case Nil
  then show ?case by simp
next
  case (Cons e evs)
  from Cons.prems(2) obtain p1 where s: "pub_step a e p = Some p1"
    and r: "pub_run a evs p1 = Some p'"
    by (auto split: option.splits)
  from async_inv_step [OF assms Cons.prems(1) s] Cons.IH r show ?case by blast
qed

lemma async_publisher_fires_at_last_ack:
  assumes "1 \<le> p_numMsgs a" "\<not> p_sync a" "pub_run a evs init_publisher = Some p"
    "pfatal p = None" "ppc p \<noteq> PubInit"
  shows "fired p \<longleftrightarrow> p_numMsgs a \<le> published p"
    and "published p = p_numMsgs a \<Longrightarrow> ppc p \<noteq> PubDone \<Longrightarrow> pub_step a (Call t err) p \<noteq> None"
proof -
  have "async_inv a init_publisher" by (simp add: async_inv_def init_publisher_def)
  then have i: "async_inv a p" using async_inv_run [OF assms(1,2)] assms(3) by blast
  show "fired p \<longleftrightarrow> p_numMsgs a \<le> published p"
    using i assms(4,5) by (simp add: async_inv_def)
  show "pub_step a (Call t err) p \<noteq> None" if "published p = p_numMsgs a" "ppc p \<noteq> PubDone"
    using i assms(4,5) that
    by (cases "ppc p") (auto simp: async_inv_def fired_def pub_step_def pub_call_def)
qed

section \<open>Runs of the subscriber side\<close>


lemma run_append:
  "run fl (es @ es') s = (case run fl es s of None \<Rightarrow> None | Some s' \<Rightarrow> run fl es' s')"
  by (induction es arbitrary: s) (auto split: option.splits)

lemma run_snoc:
  "run fl (es @ [e]) s = (case run fl es s of None \<Rightarrow> None | Some s' \<Rightarrow> step fl e s')"
  by (simp add: run_append split: option.splits)

lemma run_history_induct [consumes 1, case_names init step]:
  assumes "run fl evs s0 = Some s"
    and "P [] s0"
    and "\<And>es s e s'. run fl es s0 = Some s \<Longrightarrow> P es s \<Longrightarrow> step fl e s = Some s'
           \<Longrightarrow> P (es @ [e]) s'"
  shows "P evs s"
  using assms(1)
proof (induction evs arbitrary: s rule: rev_induct)
  case Nil
  then show ?case using assms(2) by simp
next
  case (snoc e es)
  from snoc.prems obtain s1 where r: "run fl es s0 = Some s1" and st: "step fl e s1 = Some s"
    by (auto simp: run_snoc split: option.splits)
  from assms(3) [OF r snoc.IH [OF r] st] show ?case .
qed

lemma recv_SomeD:
  "recv fl t q m = Some (v, q', m') \<Longrightarrow>
     \<exists>rest. ch m = v # rest \<and> q' = fst (resume fl t q (m\<lparr>ch := rest\<rparr>))
            \<and> m' = snd (resume fl t q (m\<lparr>ch := rest\<rparr>))"
  by (auto simp: recv_def split: list.splits)

lemma work_length: "work fl i t ok s = Some s' \<Longrightarrow> length (subs s') = length (subs s)"
  by (auto simp: work_def Let_def split: sub_pc.splits option.splits prod.splits)

lemma step_length: "step fl e s = Some s' \<Longrightarrow> length (subs s') = length (subs s)"
  by (cases e) (auto simp: step_def work_length split: if_splits prod.splits)

lemma work_other:
  "work fl i t ok s = Some s' \<Longrightarrow> j \<noteq> i \<Longrightarrow> subs s' ! j = subs s ! j"
  by (auto simp: work_def Let_def split: sub_pc.splits option.splits prod.splits)

lemma step_other:
  "step fl e s = Some s' \<Longrightarrow> target e \<noteq> Some j \<Longrightarrow> subs s' ! j = subs s ! j"
  by (cases e) (auto simp: step_def work_other split: if_splits prod.splits)

lemma step_terminated: "step fl e s = Some s' \<Longrightarrow> terminated s = None"
  by (auto simp: step_def split: if_splits)


lemma send_last_frame [simp]:
  "pc (send_last t m) = pc m" "acts (send_last t m) = acts m"
  "sub_open (send_last t m) = sub_open m" "sr (send_last t m) = sr m"
  "start_ts (send_last t m) = start_ts m" "end_ts (send_last t m) = end_ts m"
  "received (send_last t m) = received m"
  by (simp_all add: send_last_def)

lemma mcb_tail_frame [simp]:
  "pc (snd (mcb_tail fl t q m)) = pc m" "acts (snd (mcb_tail fl t q m)) = acts m"
  "sub_open (snd (mcb_tail fl t q m)) = sub_open m" "sr (snd (mcb_tail fl t q m)) = sr m"
  "start_ts (snd (mcb_tail fl t q m)) = start_ts m" "end_ts (snd (mcb_tail fl t q m)) = end_ts m"
  "received (snd (mcb_tail fl t q m)) = received m"
  by (simp_all add: mcb_tail_def Let_def)

lemma mcb_frame [simp]:
  "pc (snd (mcb fl t q m)) = pc m" "acts (snd (mcb fl t q m)) = acts m"
  "sub_open (snd (mcb fl t q m)) = sub_open m" "sr (snd (mcb fl t q m)) = sr m"
  "start_ts (snd (mcb fl t q m)) = start_ts m" "end_ts (snd (mcb fl t q m)) = end_ts m"
  "received (snd (mcb fl t q m)) = received m + 1"
  by (simp_all add: mcb_def Let_def)

lemma resume_frame [simp]:
  "pc (snd (resume fl t q m)) = pc m" "acts (snd (resume fl t q m)) = acts m"
  "sub_open (snd (resume fl t q m)) = sub_open m" "sr (snd (resume fl t q m)) = sr m"
  "start_ts (snd (resume fl t q m)) = start_ts m" "end_ts (snd (resume fl t q m)) = end_ts m"
  "received (snd (resume fl t q m)) = received m"
  by (simp_all add: resume_def split: cb_state.splits)

text \<open>What a step does to the subscriber it concerns.\<close>

lemma step_DeliverD:
  assumes "step fl (Deliver i t) s = Some s'"
  shows "i < length (subs s)" "sub_open (subs s ! i)" "cb (subs s ! i) = Idle"
    "terminated s = None" "isQueue fl \<Longrightarrow> 0 < pending s"
    "subs s' = (subs s)[i := snd (mcb fl t (qTotalRecv s) (subs s ! i))]"
    "qTotalRecv s' = fst (mcb fl t (qTotalRecv s) (subs s ! i))"
    "qSubsLeft s' = qSubsLeft s" "terminated s' = None"
    "pending s' = (if isQueue fl then pending s - 1 else pending s)"
  using assms by (auto simp: step_def split: if_splits prod.splits)

lemma step_ConnLostD:
  assumes "step fl (ConnLost i) s = Some s'"
  shows "s' = s\<lparr>terminated := Some ConnectionLost\<rparr>" "terminated s = None"
  using assms by (auto simp: step_def split: if_splits)

lemma step_WorkD:
  assumes "step fl (Work i t ok) s = Some s'"
  shows "i < length (subs s)" "terminated s = None" "work fl i t ok s = Some s'"
  using assms by (auto simp: step_def split: if_splits)


lemma work_cases [consumes 1, case_names AwaitStart AwaitEnd AtSample AtDecr AtSubClose
    AtPublish AtConnClose]:
  assumes "work fl i t ok s = Some s'"
  obtains
    (AwaitStart) v rest where "pc (subs s ! i) = AwaitStart" "ch (subs s ! i) = v # rest"
      "s' = s\<lparr>qTotalRecv := fst (resume fl t (qTotalRecv s) ((subs s ! i)\<lparr>ch := rest\<rparr>)),
               subs := (subs s)[i := (snd (resume fl t (qTotalRecv s) ((subs s ! i)\<lparr>ch := rest\<rparr>)))
                          \<lparr>start_ts := v, pc := AwaitEnd\<rparr>]\<rparr>"
  | (AwaitEnd) v rest where "pc (subs s ! i) = AwaitEnd" "ch (subs s ! i) = v # rest"
      "s' = s\<lparr>qTotalRecv := fst (resume fl t (qTotalRecv s) ((subs s ! i)\<lparr>ch := rest\<rparr>)),
               subs := (subs s)[i := (snd (resume fl t (qTotalRecv s) ((subs s ! i)\<lparr>ch := rest\<rparr>)))
                          \<lparr>end_ts := v, pc := AtSample\<rparr>]\<rparr>"
  | (AtSample) "pc (subs s ! i) = AtSample"
      "s' = s\<lparr>subs := (subs s)[i := (subs s ! i)
               \<lparr>acts := acts (subs s ! i) @ [AddSubSample
                    \<lparr>jobMsgCnt = received (subs s ! i), msgSz = messageSize fl,
                      sStart = start_ts (subs s ! i), sEnd = end_ts (subs s ! i)\<rparr>],
                 pc := (if isQueue fl then AtDecr else AtConnClose)\<rparr>]\<rparr>"
  | (AtDecr) "pc (subs s ! i) = AtDecr"
      "s' = s\<lparr>qSubsLeft := AddInt32 (qSubsLeft s) (- 1),
               subs := (subs s)[i := (subs s ! i)
                 \<lparr>sr := AddInt32 (qSubsLeft s) (- 1),
                   acts := acts (subs s ! i) @ [Decrement (AddInt32 (qSubsLeft s) (- 1))],
                   pc := (if 0 < AddInt32 (qSubsLeft s) (- 1) then AtSubClose
                          else AtConnClose)\<rparr>]\<rparr>"
  | (AtSubClose) "pc (subs s ! i) = AtSubClose"
      "s' = s\<lparr>subs := (subs s)[i := (subs s ! i)
               \<lparr>sub_open := False, acts := acts (subs s ! i) @ [SubClose],
                 pc := AtPublish\<rparr>]\<rparr>"
  | (AtPublish) "pc (subs s ! i) = AtPublish"
      "s' = s\<lparr>pending := (if ok then pending s + 1 else pending s),
               subs := (subs s)[i := (subs s ! i)
                 \<lparr>acts := acts (subs s ! i) @ [PublishDone ok], pc := AtConnClose\<rparr>]\<rparr>"
  | (AtConnClose) "pc (subs s ! i) = AtConnClose"
      "s' = s\<lparr>subs := (subs s)[i := (subs s ! i)
               \<lparr>sub_open := False, acts := acts (subs s ! i) @ [ConnClose],
                 pc := Finished\<rparr>]\<rparr>"
proof (cases "pc (subs s ! i)")
  case AwaitStart
  with assms that(1) show ?thesis
    by (auto simp: work_def Let_def dest!: recv_SomeD split: option.splits)
next
  case AwaitEnd
  with assms that(2) show ?thesis
    by (auto simp: work_def Let_def dest!: recv_SomeD split: option.splits)
next
  case AtSample
  with assms that(3) show ?thesis by (auto simp: work_def Let_def)
next
  case AtDecr
  with assms that(4) show ?thesis by (auto simp: work_def Let_def)
next
  case AtSubClose
  with assms that(5) show ?thesis by (auto simp: work_def Let_def)
next
  case AtPublish
  with assms that(6) show ?thesis by (auto simp: work_def Let_def)
next
  case AtConnClose
  with assms that(7) show ?thesis by (auto simp: work_def Let_def)
next
  case Finished
  with assms show ?thesis by (auto simp: work_def Let_def)
qed

section \<open>The course of a worker\<close>

lemma course_init: "course fl init_subscriber"
  by (simp add: course_def init_subscriber_def)

lemma course_mcb: "course fl (snd (mcb fl t q m)) = course fl m"
  by (simp add: course_def split: sub_pc.splits)

lemma course_work:
  assumes "work fl i t ok s = Some s'" "i < length (subs s)" "course fl (subs s ! i)"
  shows "course fl (subs s' ! i)"
  using assms(1)
proof (cases rule: work_cases)
  case (AwaitStart v rest)
  then show ?thesis using assms(2,3) by (simp add: course_def)
next
  case (AwaitEnd v rest)
  then show ?thesis using assms(2,3) by (simp add: course_def)
next
  case AtSample
  then show ?thesis using assms(2,3) by (simp add: course_def)
next
  case AtDecr
  then show ?thesis using assms(2,3) by (simp add: course_def)
next
  case AtSubClose
  then show ?thesis using assms(2,3) by (simp add: course_def)
next
  case AtPublish
  then show ?thesis using assms(2,3) by (simp add: course_def)
next
  case AtConnClose
  then show ?thesis using assms(2,3) by (auto simp: course_def split: if_splits)
qed

lemma course_step:
  assumes "step fl e s = Some s'" "\<forall>i < length (subs s). course fl (subs s ! i)"
  shows "\<forall>i < length (subs s'). course fl (subs s' ! i)"
proof (intro allI impI)
  fix j assume j: "j < length (subs s')"
  then have j': "j < length (subs s)" using step_length [OF assms(1)] by simp
  show "course fl (subs s' ! j)"
  proof (cases "target e = Some j")
    case False
    then show ?thesis using step_other [OF assms(1)] assms(2) j' by simp
  next
    case True
    then show ?thesis
    proof (cases e)
      case (Deliver i t)
      with True have "i = j" by simp
      then show ?thesis
        using step_DeliverD(6) [OF assms(1) [unfolded Deliver]] assms(2) j'
        by (simp add: course_mcb)
    next
      case (Work i t ok)
      with True have "i = j" by simp
      then show ?thesis
        using step_WorkD(3) [OF assms(1) [unfolded Work]] assms(2) j' course_work by blast
    next
      case (ConnLost i)
      with True show ?thesis by simp
    qed
  qed
qed

lemma course_run:
  assumes "run fl evs (init_sys fl avail) = Some s"
  shows "\<forall>i < length (subs s). course fl (subs s ! i)"
  using assms
proof (induction rule: run_history_induct)
  case init
  then show ?case by (simp add: init_sys_def course_init)
next
  case (step es s e s')
  then show ?case using course_step by blast
qed


section \<open>Deliveries and the local counter\<close>

lemma deliveries_append:
  "deliveries i (es @ es') = deliveries i es @ deliveries i es'"
proof (induction es)
  case Nil
  then show ?case by simp
next
  case (Cons e es)
  then show ?case by (cases e) simp_all
qed

lemma deliveries_snoc_other:
  "target e \<noteq> Some i \<Longrightarrow> deliveries i (es @ [e]) = deliveries i es"
  by (cases e) (simp_all add: deliveries_append)

lemma deliveries_snoc_Work [simp]: "deliveries i (es @ [Work j t ok]) = deliveries i es"
  by (simp add: deliveries_append)

lemma deliveries_snoc_Deliver [simp]:
  "deliveries i (es @ [Deliver i t]) = deliveries i es @ [t]"
  by (simp add: deliveries_append)

text \<open>The local counter counts the deliveries.\<close>

lemma received_step:
  assumes "step fl e s = Some s'" "i < length (subs s)"
    "received (subs s ! i) = int (length (deliveries i es))"
  shows "received (subs s' ! i) = int (length (deliveries i (es @ [e])))"
proof (cases "target e = Some i")
  case False
  then show ?thesis
    using step_other [OF assms(1)] assms(3) by (simp add: deliveries_snoc_other)
next
  case True
  show ?thesis
  proof (cases e)
    case (Deliver j t)
    with True have ji: "j = i" by simp
    show ?thesis
      using step_DeliverD(6) [OF assms(1) [unfolded Deliver ji]] assms(2,3)
      by (simp add: Deliver ji)
  next
    case (Work j t ok)
    with True have ji: "j = i" by simp
    from step_WorkD(3) [OF assms(1) [unfolded Work ji]]
    have "received (subs s' ! i) = received (subs s ! i)"
      using assms(2) by (cases rule: work_cases) simp_all
    then show ?thesis using assms(3) by (simp add: Work)
  next
    case (ConnLost j)
    with True show ?thesis by simp
  qed
qed

lemma received_run:
  assumes "run fl evs (init_sys fl avail) = Some s"
  shows "\<forall>i < length (subs s). received (subs s ! i) = int (length (deliveries i evs))"
  using assms
proof (induction rule: run_history_induct)
  case init
  then show ?case by (simp add: init_sys_def init_subscriber_def)
next
  case (step es s e s')
  then show ?case using received_step step_length by metis
qed

section \<open>The channel of a subscriber\<close>

lemma signals_single: "signals n [t] = (if n \<le> 1 then [t, t] else [t])"
  by (simp add: signals_def)

lemma signals_snoc:
  assumes "ds \<noteq> []"
  shows "signals n (ds @ [t])
           = signals n ds @ (if n \<le> int (length ds) + 1 then [t] else [])"
proof -
  from assms obtain d ds' where ds: "ds = d # ds'" by (cases ds) auto
  have "drop (nat (n - 1)) (ds @ [t])
          = drop (nat (n - 1)) ds @ drop (nat (n - 1) - length ds) [t]"
    by simp
  moreover have "drop (nat (n - 1) - length ds) [t]
          = (if n \<le> int (length ds) + 1 then [t] else [])"
    by auto
  ultimately show ?thesis by (simp add: signals_def ds)
qed

lemma taken_mcb [simp]: "taken (snd (mcb fl t q m)) = taken m"
  by (simp add: taken_def split: sub_pc.splits)

lemma taken_resume [simp]: "taken (snd (resume fl t q m)) = taken m"
  by (simp add: taken_def split: sub_pc.splits)

lemma chan_inv_mcb:
  assumes "chan_inv fl ds m" "cb m = Idle"
  shows "chan_inv fl (ds @ [t]) (snd (mcb fl t q m))"
proof (cases "ds = []")
  case True
  then have "ch m = []" "received m = 0" using assms by (simp_all add: chan_inv_def)
  then show ?thesis using assms True
    by (auto simp: chan_inv_def mcb_def mcb_tail_def send_last_def Let_def held_def
        signals_single taken_def)
next
  case False
  then have r: "received m + 1 \<noteq> 1" using assms by (simp add: chan_inv_def)
  have h: "held m = []" using assms(2) by (simp add: held_def)
  show ?thesis using assms False r h
    by (auto simp: chan_inv_def mcb_def mcb_tail_def send_last_def Let_def held_def
        signals_snoc taken_def split: sub_pc.splits)
qed


lemma chan_inv_work:
  assumes "work fl i t ok s = Some s'" "i < length (subs s)" "chan_inv fl ds (subs s ! i)"
  shows "chan_inv fl ds (subs s' ! i)"
  using assms(1)
proof (cases rule: work_cases)
  case (AwaitStart v rest)
  then show ?thesis using assms(2,3)
    by (auto simp: chan_inv_def resume_def taken_def held_def split: cb_state.splits)
next
  case (AwaitEnd v rest)
  then show ?thesis using assms(2,3)
    by (auto simp: chan_inv_def resume_def taken_def held_def split: cb_state.splits)
next
  case AtSample
  then show ?thesis using assms(2,3) by (auto simp: chan_inv_def taken_def held_def)
next
  case AtDecr
  then show ?thesis using assms(2,3) by (auto simp: chan_inv_def taken_def held_def)
next
  case AtSubClose
  then show ?thesis using assms(2,3) by (auto simp: chan_inv_def taken_def held_def)
next
  case AtPublish
  then show ?thesis using assms(2,3) by (auto simp: chan_inv_def taken_def held_def)
next
  case AtConnClose
  then show ?thesis using assms(2,3) by (auto simp: chan_inv_def taken_def held_def)
qed

lemma chan_inv_step:
  assumes "step fl e s = Some s'" "i < length (subs s)"
    "chan_inv fl (deliveries i es) (subs s ! i)"
  shows "chan_inv fl (deliveries i (es @ [e])) (subs s' ! i)"
proof (cases "target e = Some i")
  case False
  then show ?thesis
    using step_other [OF assms(1)] assms(3) by (simp add: deliveries_snoc_other)
next
  case True
  show ?thesis
  proof (cases e)
    case (Deliver j t)
    with True have ji: "j = i" by simp
    note d = step_DeliverD [OF assms(1) [unfolded Deliver ji]]
    show ?thesis using d(3,6) assms(2,3) chan_inv_mcb by (simp add: Deliver ji)
  next
    case (Work j t ok)
    with True have ji: "j = i" by simp
    from step_WorkD(3) [OF assms(1) [unfolded Work ji]] assms(2,3)
    show ?thesis by (simp add: Work chan_inv_work)
  next
    case (ConnLost j)
    with True show ?thesis by simp
  qed
qed

lemma chan_inv_run:
  assumes "run fl evs (init_sys fl avail) = Some s"
  shows "\<forall>i < length (subs s). chan_inv fl (deliveries i evs) (subs s ! i)"
  using assms
proof (induction rule: run_history_induct)
  case init
  then show ?case
    by (simp add: init_sys_def init_subscriber_def chan_inv_def taken_def held_def
        signals_def)
next
  case (step es s e s')
  then show ?case using chan_inv_step step_length by metis
qed

lemma signals_two:
  assumes "signals n ds = a # b # rest" "1 \<le> n"
  shows "ds \<noteq> []" "a = ds ! 0" "n \<le> int (length ds)" "b = ds ! (nat n - 1)"
proof -
  show ne: "ds \<noteq> []" using assms(1) by (auto simp: signals_def)
  then obtain d ds' where ds: "ds = d # ds'" by (cases ds) auto
  from assms(1) have a: "a = d" and dr: "drop (nat (n - 1)) ds = b # rest"
    by (auto simp: signals_def ds)
  show "a = ds ! 0" using a ds by simp
  from dr have lt: "nat (n - 1) < length ds"
    by (metis drop_all list.distinct(1) not_le)
  then show "n \<le> int (length ds)" by linarith
  from dr lt have "b = ds ! nat (n - 1)"
    by (metis hd_drop_conv_nth list.sel(1))
  moreover have "nat (n - 1) = nat n - 1" using assms(2) by linarith
  ultimately show "b = ds ! (nat n - 1)" by simp
qed

lemma signals_one:
  assumes "signals n ds = a # rest"
  shows "ds \<noteq> []" "a = ds ! 0"
  using assms by (cases ds; simp add: signals_def)+

lemma plain_signal_facts:
  assumes "queue fl = []" and "1 \<le> numMsgs fl"
    and "run fl evs (init_sys fl avail) = Some s" and "i < length (subs s)"
  shows "taken (subs s ! i) @ ch (subs s ! i) @ held (subs s ! i)
           = signals (numMsgs fl) (deliveries i evs)
       \<and> (pc (subs s ! i) \<noteq> AwaitStart \<longrightarrow>
            deliveries i evs \<noteq> [] \<and> start_ts (subs s ! i) = deliveries i evs ! 0)
       \<and> (pc (subs s ! i) \<noteq> AwaitStart \<and> pc (subs s ! i) \<noteq> AwaitEnd \<longrightarrow>
            numMsgs fl \<le> int (length (deliveries i evs))
            \<and> end_ts (subs s ! i) = deliveries i evs ! (nat (numMsgs fl) - 1))"
proof -
  let ?m = "subs s ! i" and ?ds = "deliveries i evs"
  have nq: "\<not> isQueue fl" using assms(1) by (simp add: isQueue_def)
  have "chan_inv fl ?ds ?m" using chan_inv_run [OF assms(3)] assms(4) by blast
  then have eq: "taken ?m @ ch ?m @ held ?m = signals (numMsgs fl) ?ds"
    using nq by (simp add: chan_inv_def)
  have one: "?ds \<noteq> [] \<and> start_ts ?m = ?ds ! 0" if "pc ?m \<noteq> AwaitStart"
  proof -
    from that obtain rest where "taken ?m = start_ts ?m # rest"
      by (cases "pc ?m") (simp_all add: taken_def)
    with eq have "signals (numMsgs fl) ?ds = start_ts ?m # (rest @ ch ?m @ held ?m)"
      by simp
    from signals_one [OF this] show ?thesis by simp
  qed
  have two: "numMsgs fl \<le> int (length ?ds) \<and> end_ts ?m = ?ds ! (nat (numMsgs fl) - 1)"
    if "pc ?m \<noteq> AwaitStart \<and> pc ?m \<noteq> AwaitEnd"
  proof -
    from that have "taken ?m = [start_ts ?m, end_ts ?m]"
      by (cases "pc ?m") (simp_all add: taken_def)
    with eq have "signals (numMsgs fl) ?ds = start_ts ?m # end_ts ?m # (ch ?m @ held ?m)"
      by simp
    from signals_two(3,4) [OF this assms(2)] show ?thesis by simp
  qed
  from eq one two show ?thesis by blast
qed

section \<open>Counting subscribers and deliveries\<close>

lemma int32_id: "- 2147483648 \<le> x \<Longrightarrow> x < 2147483648 \<Longrightarrow> int32 x = x"
  by (simp add: int32_def)

lemma count_of_bounds: "0 \<le> count_of P xs" "count_of P xs \<le> int (length xs)"
  by (simp_all add: count_of_def)

lemma count_of_replicate: "count_of P (replicate n x) = (if P x then int n else 0)"
  by (simp add: count_of_def)

lemma filter_update_length:
  "i < length xs \<Longrightarrow>
     length (filter P (xs[i := y])) + (if P (xs ! i) then 1 else 0)
       = length (filter P xs) + (if P y then 1 else 0)"
proof (induction xs arbitrary: i)
  case Nil
  then show ?case by simp
next
  case (Cons x xs)
  show ?case
  proof (cases i)
    case 0
    then show ?thesis by simp
  next
    case (Suc j)
    then have "j < length xs" using Cons.prems by simp
    from Cons.IH [OF this] show ?thesis using Suc by simp
  qed
qed

lemma count_of_update:
  assumes "i < length xs"
  shows "count_of P (xs[i := y])
       = count_of P xs - (if P (xs ! i) then 1 else 0) + (if P y then 1 else 0)"
proof -
  have "int (length (filter P (xs[i := y]))) + (if P (xs ! i) then 1 else 0)
       = int (length (filter P xs)) + (if P y then 1 else 0)"
    using filter_update_length [OF assms, of P y] by (auto split: if_splits)
  then show ?thesis by (simp add: count_of_def)
qed

lemma count_of_update_same:
  "i < length xs \<Longrightarrow> P y = P (xs ! i) \<Longrightarrow> count_of P (xs[i := y]) = count_of P xs"
  by (simp add: count_of_update)

lemma count_of_less:
  "i < length xs \<Longrightarrow> \<not> P (xs ! i) \<Longrightarrow> count_of P xs \<le> int (length xs) - 1"
proof (induction xs arbitrary: i)
  case Nil
  then show ?case by simp
next
  case (Cons x xs)
  show ?case
  proof (cases i)
    case 0
    then have "\<not> P x" using Cons.prems by simp
    then show ?thesis using count_of_bounds(2) [of P xs] by (simp add: count_of_def)
  next
    case (Suc j)
    then have "count_of P xs \<le> int (length xs) - 1" using Cons by simp
    then show ?thesis by (simp add: count_of_def)
  qed
qed

lemma delivered_snoc:
  "delivered (es @ [e]) = delivered es + (if is_Deliver e then 1 else 0)"
  by (simp add: delivered_def)

lemma last_deliver_append:
  "last_deliver (es @ es')
     = (case last_deliver es' of Some i \<Rightarrow> Some i | None \<Rightarrow> last_deliver es)"
  by (induction es) (auto split: option.splits event.splits)

lemma last_deliver_snoc:
  "last_deliver (es @ [e])
     = (case e of Deliver i t \<Rightarrow> Some i | Work i t ok \<Rightarrow> last_deliver es
        | ConnLost i \<Rightarrow> last_deliver es)"
  by (simp add: last_deliver_append split: event.splits option.splits)

lemma last_deliver_None: "last_deliver es = None \<Longrightarrow> delivered es = 0"
proof (induction es)
  case Nil
  then show ?case by (simp add: delivered_def)
next
  case (Cons e es)
  then show ?case by (cases e) (auto simp: delivered_def split: option.splits)
qed

section \<open>The shared counters of a queue group\<close>

lemma decremented_frame [simp]:
  "decremented (snd (mcb fl t q m)) = decremented m"
  "decremented (snd (resume fl t q m)) = decremented m"
  by (simp_all add: decremented_def)

lemma sent_ok_frame [simp]:
  "sent_ok (snd (mcb fl t q m)) = sent_ok m"
  "sent_ok (snd (resume fl t q m)) = sent_ok m"
  by (simp_all add: sent_ok_def)

lemma mcb_fst_queue:
  assumes "isQueue fl" "chan_inv fl ds m"
  shows "fst (mcb fl t q m) = AddInt32 q 1"
proof -
  have "ch m = []" if "received m + 1 = 1"
    using that assms(2) by (simp add: chan_inv_def)
  then show ?thesis using assms(1) by (auto simp: mcb_def mcb_tail_def Let_def)
qed

lemma resume_fst:
  assumes "\<forall>v. cb m \<noteq> BlockedFirst v"
  shows "fst (resume fl t q m) = q"
  using assms by (cases "cb m") (simp_all add: resume_def)

lemma resume_fst_chan:
  assumes "chan_inv fl ds m"
  shows "fst (resume fl t q (m\<lparr>ch := rest\<rparr>)) = q"
  using assms by (intro resume_fst) (simp add: chan_inv_def)

lemma counters_Deliver:
  assumes q: "queue fl \<noteq> []" and b: "numSubs fl + int avail < 2147483648"
    and st: "step fl (Deliver i t) s = Some s'"
    and inv: "counters_inv fl avail es s"
    and ci: "chan_inv fl ds (subs s ! i)"
  shows "counters_inv fl avail (es @ [Deliver i t]) s'"
proof -
  note d = step_DeliverD [OF st]
  have iq: "isQueue fl" using q by (simp add: isQueue_def)
  have pend: "0 < pending s" using d(5) iq by simp
  have le: "count_of sent_ok (subs s) \<le> numSubs fl"
    using count_of_bounds(2) [of sent_ok "subs s"] inv by (simp add: counters_inv_def)
  have q0: "0 \<le> qTotalRecv s" using inv by (simp add: counters_inv_def)
  have q1: "qTotalRecv s + 1 < 2147483648"
    using inv pend le b by (simp add: counters_inv_def)
  have qn: "qTotalRecv s' = qTotalRecv s + 1"
    using d(7) mcb_fst_queue [OF iq ci] q0 q1 by (simp add: AddInt32_def int32_id)
  have c1: "count_of decremented (subs s') = count_of decremented (subs s)"
    using d(1,6) by (simp add: count_of_update_same)
  have c2: "count_of sent_ok (subs s') = count_of sent_ok (subs s)"
    using d(1,6) by (simp add: count_of_update_same)
  have len: "length (subs s') = length (subs s)" using d(6) by simp
  have p': "int (pending s') = int (pending s) - 1" using d(10) iq pend by simp
  show ?thesis
    using inv qn c1 c2 len p' d(8)
    by (simp add: counters_inv_def delivered_snoc)
qed


lemma counters_Work:
  assumes q: "queue fl \<noteq> []" and b0: "0 \<le> numSubs fl"
    and b: "numSubs fl + int avail < 2147483648"
    and st: "step fl (Work i t ok) s = Some s'"
    and inv: "counters_inv fl avail es s"
    and co: "course fl (subs s ! i)"
    and ci: "chan_inv fl ds (subs s ! i)"
  shows "counters_inv fl avail (es @ [Work i t ok]) s'"
proof -
  note w = step_WorkD [OF st]
  have iq: "isQueue fl" using q by (simp add: isQueue_def)
  let ?m = "subs s ! i"
  from w(3) show ?thesis
  proof (cases rule: work_cases)
    case (AwaitStart v rest)
    have "qTotalRecv s' = qTotalRecv s"
      using AwaitStart(3) resume_fst_chan [OF ci] by simp
    moreover have "count_of decremented (subs s') = count_of decremented (subs s)"
      using AwaitStart w(1) by (simp add: count_of_update_same decremented_def)
    moreover have "count_of sent_ok (subs s') = count_of sent_ok (subs s)"
      using AwaitStart w(1) by (simp add: count_of_update_same sent_ok_def)
    ultimately show ?thesis using inv AwaitStart(3)
      by (simp add: counters_inv_def delivered_snoc)
  next
    case (AwaitEnd v rest)
    have "qTotalRecv s' = qTotalRecv s"
      using AwaitEnd(3) resume_fst_chan [OF ci] by simp
    moreover have "count_of decremented (subs s') = count_of decremented (subs s)"
      using AwaitEnd w(1) by (simp add: count_of_update_same decremented_def)
    moreover have "count_of sent_ok (subs s') = count_of sent_ok (subs s)"
      using AwaitEnd w(1) by (simp add: count_of_update_same sent_ok_def)
    ultimately show ?thesis using inv AwaitEnd(3)
      by (simp add: counters_inv_def delivered_snoc)
  next
    case AtSample
    have "count_of decremented (subs s') = count_of decremented (subs s)"
      using AtSample w(1) iq by (simp add: count_of_update_same decremented_def)
    moreover have "count_of sent_ok (subs s') = count_of sent_ok (subs s)"
      using AtSample w(1) by (simp add: count_of_update_same sent_ok_def)
    ultimately show ?thesis using inv AtSample(2)
      by (simp add: counters_inv_def delivered_snoc)
  next
    case AtDecr
    have nd: "\<not> decremented ?m" using AtDecr(1) by (simp add: decremented_def)
    have "count_of decremented (subs s) \<le> int (length (subs s)) - 1"
      using count_of_less [of i "subs s" decremented, OF w(1) nd] .
    then have ge: "1 \<le> qSubsLeft s" using inv by (simp add: counters_inv_def)
    have "qSubsLeft s \<le> numSubs fl"
      using inv count_of_bounds(1) [of decremented "subs s"] by (simp add: counters_inv_def)
    then have lt: "qSubsLeft s < 2147483648" using b by simp
    have a: "AddInt32 (qSubsLeft s) (- 1) = qSubsLeft s - 1"
      using ge lt by (simp add: AddInt32_def int32_id)
    have "count_of decremented (subs s') = count_of decremented (subs s) + 1"
      using AtDecr w(1) nd by (simp add: count_of_update) (simp add: decremented_def)
    moreover have "count_of sent_ok (subs s') = count_of sent_ok (subs s)"
      using AtDecr w(1) by (simp add: count_of_update_same sent_ok_def)
    ultimately show ?thesis using inv AtDecr(2) a
      by (simp add: counters_inv_def delivered_snoc)
  next
    case AtSubClose
    have "count_of decremented (subs s') = count_of decremented (subs s)"
      using AtSubClose w(1) by (simp add: count_of_update_same decremented_def)
    moreover have "count_of sent_ok (subs s') = count_of sent_ok (subs s)"
      using AtSubClose w(1) by (simp add: count_of_update_same sent_ok_def)
    ultimately show ?thesis using inv AtSubClose(2)
      by (simp add: counters_inv_def delivered_snoc)
  next
    case AtPublish
    have ns: "\<not> sent_ok ?m" using co AtPublish(1) by (auto simp: course_def sent_ok_def)
    have "count_of decremented (subs s') = count_of decremented (subs s)"
      using AtPublish w(1) by (simp add: count_of_update_same decremented_def)
    moreover have "count_of sent_ok (subs s')
        = count_of sent_ok (subs s) + (if ok then 1 else 0)"
      using AtPublish w(1) ns by (simp add: count_of_update) (simp add: sent_ok_def)
    ultimately show ?thesis using inv AtPublish(2)
      by (simp add: counters_inv_def delivered_snoc)
  next
    case AtConnClose
    have "count_of decremented (subs s') = count_of decremented (subs s)"
      using AtConnClose w(1) by (simp add: count_of_update_same decremented_def)
    moreover have "count_of sent_ok (subs s') = count_of sent_ok (subs s)"
      using AtConnClose w(1) by (simp add: count_of_update_same sent_ok_def)
    ultimately show ?thesis using inv AtConnClose(2)
      by (simp add: counters_inv_def delivered_snoc)
  qed
qed

lemma counters_step:
  assumes q: "queue fl \<noteq> []" and b0: "0 \<le> numSubs fl"
    and b: "numSubs fl + int avail < 2147483648"
    and st: "step fl e s = Some s'"
    and inv: "counters_inv fl avail es s"
    and co: "\<forall>i < length (subs s). course fl (subs s ! i)"
    and ci: "\<forall>i < length (subs s). chan_inv fl (deliveries i es) (subs s ! i)"
  shows "counters_inv fl avail (es @ [e]) s'"
proof (cases e)
  case (Deliver i t)
  note d = step_DeliverD [OF st [unfolded Deliver]]
  show ?thesis
    unfolding Deliver
    using counters_Deliver [OF q b st [unfolded Deliver] inv] ci d(1) by blast
next
  case (Work i t ok)
  note w = step_WorkD [OF st [unfolded Work]]
  show ?thesis
    unfolding Work
    using counters_Work [OF q b0 b st [unfolded Work] inv] co ci w(1) by blast
next
  case (ConnLost i)
  from step_ConnLostD(1) [OF st [unfolded ConnLost]]
  show ?thesis using inv by (simp add: counters_inv_def delivered_snoc ConnLost)
qed

lemma counters_run:
  assumes q: "queue fl \<noteq> []" and b0: "0 \<le> numSubs fl"
    and b: "numSubs fl + int avail < 2147483648"
    and r: "run fl evs (init_sys fl avail) = Some s"
  shows "counters_inv fl avail evs s"
  using r
proof (induction rule: run_history_induct)
  case init
  have "numSubs fl < 2147483648" using b by simp
  then show ?case using q b0
    by (simp add: counters_inv_def init_sys_def count_of_replicate decremented_def
        sent_ok_def init_subscriber_def delivered_def int32_id)
next
  case (step es s e s')
  from counters_step [OF q b0 b step.hyps(2) step.IH course_run [OF step.hyps(1)]
      chan_inv_run [OF step.hyps(1)]]
  show ?case .
qed

lemma qSubsLeft_step:
  assumes b: "numSubs fl + int avail < 2147483648"
    and st: "step fl e s = Some s'"
    and inv: "counters_inv fl avail es s"
  shows "qSubsLeft s' \<le> qSubsLeft s"
proof (cases e)
  case (Deliver i t)
  from step_DeliverD(8) [OF st [unfolded Deliver]] show ?thesis by simp
next
  case (ConnLost i)
  from step_ConnLostD(1) [OF st [unfolded ConnLost]] show ?thesis by simp
next
  case (Work i t ok)
  note w = step_WorkD [OF st [unfolded Work]]
  from w(3) show ?thesis
  proof (cases rule: work_cases)
    case AtDecr
    have nd: "\<not> decremented (subs s ! i)" using AtDecr(1) by (simp add: decremented_def)
    have "count_of decremented (subs s) \<le> int (length (subs s)) - 1"
      using count_of_less [of i "subs s" decremented, OF w(1) nd] .
    then have ge: "1 \<le> qSubsLeft s" using inv by (simp add: counters_inv_def)
    have "qSubsLeft s \<le> numSubs fl"
      using inv count_of_bounds(1) [of decremented "subs s"] by (simp add: counters_inv_def)
    then have lt: "qSubsLeft s < 2147483648" using b by simp
    have "AddInt32 (qSubsLeft s) (- 1) = qSubsLeft s - 1"
      using ge lt by (simp add: AddInt32_def int32_id)
    then show ?thesis using AtDecr(2) by simp
  qed simp_all
qed



section \<open>What keeps a queue group going\<close>

lemma got_send_last: "cb m = Idle \<Longrightarrow> got (send_last t m) = got m + 1"
  by (simp add: got_def send_last_def held_def taken_def split: sub_pc.splits)

lemma got_mcb:
  assumes "isQueue fl" "chan_inv fl ds m" "cb m = Idle"
  shows "got (snd (mcb fl t q m))
           = got m + (if ds = [] then 1 else 0)
               + (if int32 (numMsgs fl) \<le> AddInt32 q 1 then 1 else 0)"
proof (cases "ds = []")
  case True
  then have "ch m = []" "received m = 0" using assms(2) by (simp_all add: chan_inv_def)
  then show ?thesis using assms(1,3) True
    by (auto simp: mcb_def mcb_tail_def Let_def send_last_def got_def held_def taken_def
        split: sub_pc.splits)
next
  case False
  then have r: "received m + 1 \<noteq> 1" using assms(2) by (simp add: chan_inv_def)
  show ?thesis using assms(1,3) False r
    by (auto simp: mcb_def mcb_tail_def Let_def send_last_def got_def held_def taken_def
        split: sub_pc.splits)
qed

lemma got_work:
  assumes "work fl i t ok s = Some s'" "i < length (subs s)" "chan_inv fl ds (subs s ! i)"
  shows "got (subs s' ! i) = got (subs s ! i)"
  using assms(1)
proof (cases rule: work_cases)
  case (AwaitStart v rest)
  then show ?thesis using assms(2,3)
    by (auto simp: chan_inv_def resume_def got_def taken_def held_def split: cb_state.splits)
next
  case (AwaitEnd v rest)
  then show ?thesis using assms(2,3)
    by (auto simp: chan_inv_def resume_def got_def taken_def held_def split: cb_state.splits)
next
  case AtSample
  then show ?thesis using assms(2) by (auto simp: got_def taken_def held_def)
next
  case AtDecr
  then show ?thesis using assms(2) by (auto simp: got_def taken_def held_def)
next
  case AtSubClose
  then show ?thesis using assms(2) by (auto simp: got_def taken_def held_def)
next
  case AtPublish
  then show ?thesis using assms(2) by (auto simp: got_def taken_def held_def)
next
  case AtConnClose
  then show ?thesis using assms(2) by (auto simp: got_def taken_def held_def)
qed

lemma work_qTotalRecv:
  assumes "work fl i t ok s = Some s'" "chan_inv fl ds (subs s ! i)"
  shows "qTotalRecv s' = qTotalRecv s"
  using assms(1)
proof (cases rule: work_cases)
  case (AwaitStart v rest)
  then show ?thesis using resume_fst_chan [OF assms(2)] by simp
next
  case (AwaitEnd v rest)
  then show ?thesis using resume_fst_chan [OF assms(2)] by simp
qed simp_all

lemma work_pending:
  assumes "work fl i t ok s = Some s'"
  shows "pending s \<le> pending s'"
  using assms by (cases rule: work_cases) simp_all

lemma deliver_qTotalRecv:
  assumes q: "queue fl \<noteq> []" and b: "numSubs fl + int avail < 2147483648"
    and st: "step fl (Deliver i t) s = Some s'"
    and inv: "counters_inv fl avail es s"
    and ci: "chan_inv fl ds (subs s ! i)"
  shows "AddInt32 (qTotalRecv s) 1 = qTotalRecv s + 1" "qTotalRecv s' = qTotalRecv s + 1"
proof -
  note d = step_DeliverD [OF st]
  have iq: "isQueue fl" using q by (simp add: isQueue_def)
  have pend: "0 < pending s" using d(5) iq by simp
  have le: "count_of sent_ok (subs s) \<le> numSubs fl"
    using count_of_bounds(2) [of sent_ok "subs s"] inv by (simp add: counters_inv_def)
  have q0: "0 \<le> qTotalRecv s" using inv by (simp add: counters_inv_def)
  have q1: "qTotalRecv s + 1 < 2147483648"
    using inv pend le b by (simp add: counters_inv_def)
  show a: "AddInt32 (qTotalRecv s) 1 = qTotalRecv s + 1"
    using q0 q1 by (simp add: AddInt32_def int32_id)
  show "qTotalRecv s' = qTotalRecv s + 1"
    using d(7) mcb_fst_queue [OF iq ci] a by simp
qed

lemma live_Deliver:
  assumes q: "queue fl \<noteq> []" and n1: "0 \<le> numMsgs fl" and na: "numMsgs fl \<le> int avail"
    and b: "numSubs fl + int avail < 2147483648" and b0: "0 \<le> numSubs fl"
    and st: "step fl (Deliver i t) s = Some s'"
    and inv: "live_inv fl es s"
    and cnt: "counters_inv fl avail es s"
    and co: "course fl (subs s ! i)"
    and ci: "chan_inv fl (deliveries i es) (subs s ! i)"
  shows "live_inv fl (es @ [Deliver i t]) s'"
proof -
  note d = step_DeliverD [OF st]
  let ?m = "subs s ! i" and ?m' = "snd (mcb fl t (qTotalRecv s) (subs s ! i))"
  have iq: "isQueue fl" using q by (simp add: isQueue_def)
  note qq = deliver_qTotalRecv [OF q b st cnt ci]
  have n32: "int32 (numMsgs fl) = numMsgs fl"
    using n1 na b b0 by (simp add: int32_id)
  have gm: "got ?m' = got ?m + (if deliveries i es = [] then 1 else 0)
               + (if numMsgs fl \<le> qTotalRecv s + 1 then 1 else 0)"
    using got_mcb [OF iq ci d(3)] qq(1) n32 by simp
  have g1: "1 \<le> got ?m" if "deliveries i es \<noteq> []"
    using inv d(1) that by (simp add: live_inv_def)
  have len: "length (subs s') = length (subs s)" using d(6) by simp
  have nth_i: "subs s' ! i = ?m'" using d(1,6) by simp
  have nth_o: "subs s' ! m = subs s ! m" if "m \<noteq> i" for m using d(6) that by simp
  have c1: "\<forall>m < length (subs s'). decremented (subs s' ! m) \<longrightarrow> qSubsLeft s' \<le> sr (subs s' ! m)"
  proof (intro allI impI)
    fix m assume m: "m < length (subs s')" and dm: "decremented (subs s' ! m)"
    show "qSubsLeft s' \<le> sr (subs s' ! m)"
    proof (cases "m = i")
      case True
      then show ?thesis using inv d(1,8) dm nth_i by (simp add: live_inv_def)
    next
      case False
      then show ?thesis using inv m len d(8) dm nth_o by (simp add: live_inv_def)
    qed
  qed
  have c2: "\<forall>m < length (subs s'). deliveries m (es @ [Deliver i t]) \<noteq> []
              \<longrightarrow> 1 \<le> got (subs s' ! m)"
  proof (intro allI impI)
    fix m assume m: "m < length (subs s')"
      and dm: "deliveries m (es @ [Deliver i t]) \<noteq> []"
    show "1 \<le> got (subs s' ! m)"
    proof (cases "m = i")
      case True
      then show ?thesis using gm g1 nth_i by (cases "deliveries i es = []") simp_all
    next
      case False
      then have "deliveries m (es @ [Deliver i t]) = deliveries m es"
        by (simp add: deliveries_append)
      then show ?thesis using inv m len dm nth_o [OF False] by (simp add: live_inv_def)
    qed
  qed
  have c3a: "numMsgs fl \<le> qTotalRecv s' \<longrightarrow> 2 \<le> got (subs s' ! i)"
    using gm g1 nth_i qq(2) by (cases "deliveries i es = []") simp_all
  have c3b: "pending s' = 0 \<and> (pc (subs s' ! i) = AtConnClose \<or> pc (subs s' ! i) = Finished)
               \<longrightarrow> sr (subs s' ! i) \<le> 0"
    using co d(2) iq nth_i by (auto simp: course_def split: if_splits)
  show ?thesis
    unfolding live_inv_def
    using c1 c2 c3a c3b d(1) len by (simp add: last_deliver_snoc)
qed


lemma live_Work:
  assumes q: "queue fl \<noteq> []" and b: "numSubs fl + int avail < 2147483648"
    and st: "step fl (Work i t True) s = Some s'"
    and inv: "live_inv fl es s"
    and cnt: "counters_inv fl avail es s"
    and ci: "chan_inv fl (deliveries i es) (subs s ! i)"
  shows "live_inv fl (es @ [Work i t True]) s'"
proof -
  note w = step_WorkD [OF st]
  have iq: "isQueue fl" using q by (simp add: isQueue_def)
  have len: "length (subs s') = length (subs s)" using work_length [OF w(3)] .
  have oth: "subs s' ! m = subs s ! m" if "m \<noteq> i" for m
    using work_other [OF w(3) that] .
  have qt: "qTotalRecv s' = qTotalRecv s" using work_qTotalRecv [OF w(3) ci] .
  have pe: "pending s \<le> pending s'" using work_pending [OF w(3)] .
  have gi: "got (subs s' ! i) = got (subs s ! i)" using got_work [OF w(3) w(1) ci] .
  have ql: "qSubsLeft s' \<le> qSubsLeft s" using qSubsLeft_step [OF b st cnt] .
  have j10: "qSubsLeft s \<le> sr (subs s ! m)" if "m < length (subs s)" "decremented (subs s ! m)"
    for m using inv that by (simp add: live_inv_def)
  have j4: "sr (subs s ! m) \<le> 0"
    if "last_deliver es = Some m" "pending s = 0"
       "pc (subs s ! m) = AtConnClose \<or> pc (subs s ! m) = Finished" for m
    using inv that by (auto simp: live_inv_def)
  have own1: "decremented (subs s' ! i) \<longrightarrow> qSubsLeft s' \<le> sr (subs s' ! i)"
    using w(3)
  proof (cases rule: work_cases)
    case AtDecr
    then show ?thesis using w(1) by simp
  next
    case AtSubClose
    then show ?thesis using w(1) j10 [of i] ql by (simp add: decremented_def)
  next
    case AtPublish
    then show ?thesis using w(1) j10 [of i] ql by (simp add: decremented_def)
  next
    case AtConnClose
    then show ?thesis using w(1) j10 [of i] ql by (simp add: decremented_def)
  qed (use w(1) iq in \<open>simp_all add: decremented_def\<close>)
  have own4: "pending s' = 0 \<and> (pc (subs s' ! i) = AtConnClose \<or> pc (subs s' ! i) = Finished)
               \<longrightarrow> sr (subs s' ! i) \<le> 0" if "last_deliver es = Some i"
    using w(3)
  proof (cases rule: work_cases)
    case AtDecr
    then show ?thesis using w(1) by simp
  next
    case AtPublish
    then show ?thesis by simp
  next
    case AtConnClose
    then show ?thesis using w(1) j4 [OF that] by simp
  qed (use w(1) iq in \<open>simp_all\<close>)
  have c1: "\<forall>m < length (subs s'). decremented (subs s' ! m) \<longrightarrow> qSubsLeft s' \<le> sr (subs s' ! m)"
  proof (intro allI impI)
    fix m assume m: "m < length (subs s')" and dm: "decremented (subs s' ! m)"
    show "qSubsLeft s' \<le> sr (subs s' ! m)"
    proof (cases "m = i")
      case True
      then show ?thesis using own1 dm by simp
    next
      case False
      then show ?thesis using j10 [of m] m len dm oth [OF False] ql by simp
    qed
  qed
  have c2: "\<forall>m < length (subs s'). deliveries m (es @ [Work i t True]) \<noteq> []
              \<longrightarrow> 1 \<le> got (subs s' ! m)"
  proof (intro allI impI)
    fix m assume m: "m < length (subs s')"
      and dm: "deliveries m (es @ [Work i t True]) \<noteq> []"
    have "1 \<le> got (subs s ! m)" using inv m len dm by (simp add: live_inv_def)
    then show "1 \<le> got (subs s' ! m)" using gi oth by (cases "m = i") simp_all
  qed
  have c3: "m < length (subs s')
             \<and> (numMsgs fl \<le> qTotalRecv s' \<longrightarrow> 2 \<le> got (subs s' ! m))
             \<and> (pending s' = 0
                  \<and> (pc (subs s' ! m) = AtConnClose \<or> pc (subs s' ! m) = Finished)
                  \<longrightarrow> sr (subs s' ! m) \<le> 0)" if l: "last_deliver es = Some m" for m
  proof -
    have a: "m < length (subs s)"
      and g: "numMsgs fl \<le> qTotalRecv s \<longrightarrow> 2 \<le> got (subs s ! m)"
      using inv l by (simp_all add: live_inv_def)
    have g': "numMsgs fl \<le> qTotalRecv s' \<longrightarrow> 2 \<le> got (subs s' ! m)"
      using g qt gi oth by (cases "m = i") simp_all
    have f: "pending s' = 0
                  \<and> (pc (subs s' ! m) = AtConnClose \<or> pc (subs s' ! m) = Finished)
                  \<longrightarrow> sr (subs s' ! m) \<le> 0"
    proof (cases "m = i")
      case True
      then show ?thesis using own4 l by simp
    next
      case False
      then show ?thesis using j4 [OF l] pe oth [OF False] by auto
    qed
    from a g' f len show ?thesis by simp
  qed
  show ?thesis
    unfolding live_inv_def
    using c1 c2 c3 by (simp add: last_deliver_snoc)
qed

lemma live_ConnLost:
  assumes st: "step fl (ConnLost i) s = Some s'" and inv: "live_inv fl es s"
  shows "live_inv fl (es @ [ConnLost i]) s'"
  using inv step_ConnLostD(1) [OF st]
  by (simp add: live_inv_def last_deliver_snoc deliveries_append)

lemma all_ok_snoc: "all_ok (es @ [e]) = (all_ok es \<and> publish_ok e)"
  by (simp add: all_ok_def)

lemma live_run:
  assumes q: "queue fl \<noteq> []" and b0: "0 \<le> numSubs fl" and n1: "0 \<le> numMsgs fl"
    and na: "numMsgs fl \<le> int avail" and b: "numSubs fl + int avail < 2147483648"
    and r: "run fl evs (init_sys fl avail) = Some s"
  shows "all_ok evs \<longrightarrow> live_inv fl evs s"
  using r
proof (induction rule: run_history_induct)
  case init
  then show ?case
    by (simp add: live_inv_def init_sys_def init_subscriber_def decremented_def)
next
  case (step es s e s')
  note r = step.hyps(1) and st = step.hyps(2)
  show ?case
  proof
    assume ok: "all_ok (es @ [e])"
    then have inv: "live_inv fl es s" using step.IH by (simp add: all_ok_snoc)
    note cnt = counters_run [OF q b0 b r]
    show "live_inv fl (es @ [e]) s'"
    proof (cases e)
      case (Deliver i t)
      note d = step_DeliverD [OF st [unfolded Deliver]]
      have co: "course fl (subs s ! i)" using course_run [OF r] d(1) by blast
      have ci: "chan_inv fl (deliveries i es) (subs s ! i)"
        using chan_inv_run [OF r] d(1) by blast
      show ?thesis
        unfolding Deliver
        using live_Deliver [OF q n1 na b b0 st [unfolded Deliver] inv cnt co ci] .
    next
      case (Work i t k)
      then have k: "k = True" using ok by (simp add: all_ok_snoc)
      note w = step_WorkD [OF st [unfolded Work k]]
      have ci: "chan_inv fl (deliveries i es) (subs s ! i)"
        using chan_inv_run [OF r] w(1) by blast
      show ?thesis
        unfolding Work k
        using live_Work [OF q b st [unfolded Work k] inv cnt ci] .
    next
      case (ConnLost i)
      show ?thesis
        unfolding ConnLost
        using live_ConnLost [OF st [unfolded ConnLost] inv] .
    qed
  qed
qed

lemma sum_list_map_update:
  "i < length xs \<Longrightarrow>
     sum_list (map f (xs[i := y])) + f (xs ! i) = sum_list (map f xs) + (f y :: nat)"
proof (induction xs arbitrary: i)
  case Nil
  then show ?case by simp
next
  case (Cons x xs)
  show ?case
  proof (cases i)
    case 0
    then show ?thesis by simp
  next
    case (Suc j)
    then have "j < length xs" using Cons.prems by simp
    from Cons.IH [OF this] show ?thesis using Suc by simp
  qed
qed

lemma effort_update:
  assumes "i < length (subs s)"
  shows "effort (s\<lparr>subs := (subs s)[i := m], pending := p\<rparr>) + weight (pc (subs s ! i)) + pending s
           = effort s + weight (pc m) + p"
  using sum_list_map_update [OF assms, of "\<lambda>m. weight (pc m)" m]
  by (simp add: effort_def)

lemma effort_Deliver:
  assumes "isQueue fl" "step fl (Deliver i t) s = Some s'"
  shows "effort s' + 1 = effort s"
proof -
  note d = step_DeliverD [OF assms(2)]
  have p: "0 < pending s" using d(5) assms(1) by simp
  have "sum_list (map (\<lambda>m. weight (pc m)) (subs s'))
          = sum_list (map (\<lambda>m. weight (pc m)) (subs s))"
    using sum_list_map_update [OF d(1), of "\<lambda>m. weight (pc m)"
        "snd (mcb fl t (qTotalRecv s) (subs s ! i))"] d(6)
    by simp
  then show ?thesis using d(10) assms(1) p by (simp add: effort_def)
qed

lemma effort_Work:
  assumes "isQueue fl" "step fl (Work i t ok) s = Some s'"
  shows "effort s' + 1 \<le> effort s"
proof -
  note w = step_WorkD [OF assms(2)]
  let ?f = "\<lambda>m. weight (pc m)"
  note u = sum_list_map_update [OF w(1), of ?f]
  from w(3) show ?thesis
  proof (cases rule: work_cases)
    case (AwaitStart v rest)
    then show ?thesis
      using u [of "(snd (resume fl t (qTotalRecv s) ((subs s ! i)\<lparr>ch := rest\<rparr>)))
                          \<lparr>start_ts := v, pc := AwaitEnd\<rparr>"]
      by (simp add: effort_def)
  next
    case (AwaitEnd v rest)
    then show ?thesis
      using u [of "(snd (resume fl t (qTotalRecv s) ((subs s ! i)\<lparr>ch := rest\<rparr>)))
                          \<lparr>end_ts := v, pc := AtSample\<rparr>"]
      by (simp add: effort_def)
  next
    case AtSample
    then show ?thesis
      using u [of "(subs s ! i)
               \<lparr>acts := acts (subs s ! i) @ [AddSubSample
                    \<lparr>jobMsgCnt = received (subs s ! i), msgSz = messageSize fl,
                      sStart = start_ts (subs s ! i), sEnd = end_ts (subs s ! i)\<rparr>],
                 pc := (if isQueue fl then AtDecr else AtConnClose)\<rparr>"] assms(1)
      by (simp add: effort_def)
  next
    case AtDecr
    then show ?thesis
      using u [of "(subs s ! i)
                 \<lparr>sr := AddInt32 (qSubsLeft s) (- 1),
                   acts := acts (subs s ! i) @ [Decrement (AddInt32 (qSubsLeft s) (- 1))],
                   pc := (if 0 < AddInt32 (qSubsLeft s) (- 1) then AtSubClose
                          else AtConnClose)\<rparr>"]
      by (simp add: effort_def split: if_splits)
  next
    case AtSubClose
    then show ?thesis
      using u [of "(subs s ! i)
               \<lparr>sub_open := False, acts := acts (subs s ! i) @ [SubClose],
                 pc := AtPublish\<rparr>"]
      by (simp add: effort_def)
  next
    case AtPublish
    then show ?thesis
      using u [of "(subs s ! i)
                 \<lparr>acts := acts (subs s ! i) @ [PublishDone ok], pc := AtConnClose\<rparr>"]
      by (cases ok) (simp_all add: effort_def)
  next
    case AtConnClose
    then show ?thesis
      using u [of "(subs s ! i)
               \<lparr>sub_open := False, acts := acts (subs s ! i) @ [ConnClose],
                 pc := Finished\<rparr>"]
      by (simp add: effort_def)
  qed
qed

lemma effort_init: "effort (init_sys fl avail) = avail + 8 * nat (numSubs fl)"
  by (simp add: effort_def init_sys_def init_subscriber_def sum_list_replicate)

lemma effort_run:
  assumes "isQueue fl" and "run fl evs (init_sys fl avail) = Some s"
  shows "length evs + effort s
           \<le> avail + 8 * nat (numSubs fl) + (if terminated s = None then 0 else 1)"
  using assms(2)
proof (induction rule: run_history_induct)
  case init
  then show ?case by (simp add: effort_init)
next
  case (step es s e s')
  note st = step.hyps(2)
  have t0: "terminated s = None" using step_terminated [OF st] .
  show ?case
  proof (cases e)
    case (Deliver i t)
    have "terminated s' = None" using step_DeliverD(9) [OF st [unfolded Deliver]] .
    then show ?thesis
      using effort_Deliver [OF assms(1) st [unfolded Deliver]] step.IH t0 by simp
  next
    case (Work i t ok)
    have "terminated s' = terminated s"
      using step_WorkD(3) [OF st [unfolded Work]] by (cases rule: work_cases) simp_all
    then show ?thesis
      using effort_Work [OF assms(1) st [unfolded Work]] step.IH t0 by simp
  next
    case (ConnLost i)
    from step_ConnLostD(1) [OF st [unfolded ConnLost]]
    show ?thesis using step.IH t0 by (simp add: effort_def)
  qed
qed

lemma work_enabled:
  assumes "i < length (subs s)" "terminated s = None" "pc (subs s ! i) \<noteq> Finished"
    "pc (subs s ! i) = AwaitStart \<or> pc (subs s ! i) = AwaitEnd \<Longrightarrow> ch (subs s ! i) \<noteq> []"
  shows "step fl (Work i t ok) s \<noteq> None"
proof (cases "pc (subs s ! i)")
  case AwaitStart
  with assms(4) obtain v rest where "ch (subs s ! i) = v # rest"
    by (cases "ch (subs s ! i)") auto
  then show ?thesis using assms(1,2) AwaitStart
    by (simp add: step_def work_def recv_def Let_def split: prod.splits)
next
  case AwaitEnd
  with assms(4) obtain v rest where "ch (subs s ! i) = v # rest"
    by (cases "ch (subs s ! i)") auto
  then show ?thesis using assms(1,2) AwaitEnd
    by (simp add: step_def work_def recv_def Let_def split: prod.splits)
next
  case Finished
  then show ?thesis using assms(3) by simp
qed (use assms(1,2) in \<open>simp_all add: step_def work_def Let_def\<close>)

lemma deliver_enabled:
  assumes "i < length (subs s)" "terminated s = None" "sub_open (subs s ! i)"
    "cb (subs s ! i) = Idle" "0 < pending s"
  shows "step fl (Deliver i t) s \<noteq> None"
  using assms by (simp add: step_def split: prod.splits)

lemma queue_progress:
  assumes q: "queue fl \<noteq> []" and k: "1 \<le> numSubs fl" and n1: "0 \<le> numMsgs fl"
    and na: "numMsgs fl \<le> int avail" and a1: "1 \<le> avail"
    and b: "numSubs fl + int avail < 2147483648"
    and ok: "all_ok evs" and r: "run fl evs (init_sys fl avail) = Some s"
    and t0: "terminated s = None"
  shows "(\<forall>i < length (subs s). pc (subs s ! i) = Finished)
       \<or> (\<exists>i t. step fl (Work i t True) s \<noteq> None \<or> step fl (Deliver i t) s \<noteq> None)"
proof (rule ccontr)
  assume neg: "\<not> ?thesis"
  have b0: "0 \<le> numSubs fl" using k by simp
  note cnt = counters_run [OF q b0 b r]
  have live: "live_inv fl evs s" using live_run [OF q b0 n1 na b r] ok by blast
  note co = course_run [OF r] and ci = chan_inv_run [OF r]
  have nowork: "step fl (Work i t True) s = None" for i t using neg by blast
  have nodel: "step fl (Deliver i t) s = None" for i t using neg by blast
  have waiting: "(pc (subs s ! i) = AwaitStart \<or> pc (subs s ! i) = AwaitEnd) \<and> ch (subs s ! i) = []"
    if "i < length (subs s)" "pc (subs s ! i) \<noteq> Finished" for i
    using work_enabled [OF that(1) t0 that(2), of fl 0 True] nowork [of i 0] by blast
  from neg obtain w where w: "w < length (subs s)" "pc (subs s ! w) \<noteq> Finished" by blast
  note ww = waiting [OF w]
  have cw: "chan_inv fl (deliveries w evs) (subs s ! w)" using ci w(1) by blast
  have idle_w: "cb (subs s ! w) = Idle" using cw ww by (auto simp: chan_inv_def)
  have open_w: "sub_open (subs s ! w)" using co w(1) ww by (auto simp: course_def)
  have p0: "pending s = 0"
    using deliver_enabled [OF w(1) t0 open_w idle_w, of fl 0] nodel [of w 0] by auto
  have "0 \<le> count_of sent_ok (subs s)" by (rule count_of_bounds)
  then have qa: "int avail \<le> qTotalRecv s"
    using cnt p0 by (simp add: counters_inv_def)
  then have qn: "numMsgs fl \<le> qTotalRecv s" using na by simp
  have "delivered evs \<noteq> 0" using cnt qa a1 by (auto simp: counters_inv_def)
  then obtain m where lm: "last_deliver evs = Some m"
    using last_deliver_None [of evs] by (cases "last_deliver evs") auto
  have m: "m < length (subs s)" and g2: "2 \<le> got (subs s ! m)"
    using live lm qn by (simp_all add: live_inv_def)
  have fin: "pc (subs s ! m) = Finished"
  proof (rule ccontr)
    assume nf: "pc (subs s ! m) \<noteq> Finished"
    note wm = waiting [OF m nf]
    have "chan_inv fl (deliveries m evs) (subs s ! m)" using ci m by blast
    then have "cb (subs s ! m) = Idle" using wm by (auto simp: chan_inv_def)
    then have "got (subs s ! m) \<le> 1" using wm
      by (auto simp: got_def taken_def held_def)
    then show False using g2 by simp
  qed
  have "sr (subs s ! m) \<le> 0" using live lm p0 fin by (auto simp: live_inv_def)
  moreover have "qSubsLeft s \<le> sr (subs s ! m)"
    using live m fin by (simp add: live_inv_def decremented_def)
  moreover have "1 \<le> qSubsLeft s"
  proof -
    have nd: "\<not> decremented (subs s ! w)" using ww by (auto simp: decremented_def)
    have "count_of decremented (subs s) \<le> int (length (subs s)) - 1"
      using count_of_less [of w "subs s" decremented, OF w(1) nd] .
    then show ?thesis using cnt by (simp add: counters_inv_def)
  qed
  ultimately show False by simp
qed

lemma count_of_mono:
  "(\<forall>x \<in> set xs. P x \<longrightarrow> Q x) \<Longrightarrow> count_of P xs \<le> count_of Q xs"
  by (induction xs) (auto simp: count_of_def)

lemma took_branch_frame [simp]:
  "took_branch (snd (mcb fl t q m)) = took_branch m"
  "took_branch (snd (resume fl t q m)) = took_branch m"
  by (simp_all add: took_branch_def)

lemma branch_step:
  assumes q: "queue fl \<noteq> []" and b: "numSubs fl + int avail < 2147483648"
    and st: "step fl e s = Some s'"
    and cnt: "counters_inv fl avail es s"
    and inv: "count_of took_branch (subs s) + (if qSubsLeft s = 0 then 1 else 0)
                \<le> count_of decremented (subs s)"
  shows "count_of took_branch (subs s') + (if qSubsLeft s' = 0 then 1 else 0)
                \<le> count_of decremented (subs s')"
proof (cases e)
  case (Deliver i t)
  note d = step_DeliverD [OF st [unfolded Deliver]]
  have "count_of took_branch (subs s') = count_of took_branch (subs s)"
    "count_of decremented (subs s') = count_of decremented (subs s)"
    using d(1,6) by (simp_all add: count_of_update_same)
  then show ?thesis using inv d(8) by simp
next
  case (ConnLost i)
  from step_ConnLostD(1) [OF st [unfolded ConnLost]] show ?thesis using inv by simp
next
  case (Work i t ok)
  note w = step_WorkD [OF st [unfolded Work]]
  from w(3) show ?thesis
  proof (cases rule: work_cases)
    case (AwaitStart v rest)
    have "count_of took_branch (subs s') = count_of took_branch (subs s)"
      "count_of decremented (subs s') = count_of decremented (subs s)"
      using AwaitStart w(1)
      by (simp_all add: count_of_update_same took_branch_def decremented_def)
    then show ?thesis using inv AwaitStart(3) by simp
  next
    case (AwaitEnd v rest)
    have "count_of took_branch (subs s') = count_of took_branch (subs s)"
      "count_of decremented (subs s') = count_of decremented (subs s)"
      using AwaitEnd w(1)
      by (simp_all add: count_of_update_same took_branch_def decremented_def)
    then show ?thesis using inv AwaitEnd(3) by simp
  next
    case AtSample
    have iq: "isQueue fl" using q by (simp add: isQueue_def)
    have "count_of took_branch (subs s') = count_of took_branch (subs s)"
      "count_of decremented (subs s') = count_of decremented (subs s)"
      using AtSample w(1) iq
      by (simp_all add: count_of_update_same took_branch_def decremented_def)
    then show ?thesis using inv AtSample(2) by simp
  next
    case AtDecr
    have nd: "\<not> decremented (subs s ! i)" using AtDecr(1) by (simp add: decremented_def)
    have "count_of decremented (subs s) \<le> int (length (subs s)) - 1"
      using count_of_less [of i "subs s" decremented, OF w(1) nd] .
    then have ge: "1 \<le> qSubsLeft s" using cnt by (simp add: counters_inv_def)
    have "qSubsLeft s \<le> numSubs fl"
      using cnt count_of_bounds(1) [of decremented "subs s"] by (simp add: counters_inv_def)
    then have lt: "qSubsLeft s < 2147483648" using b by simp
    have a: "AddInt32 (qSubsLeft s) (- 1) = qSubsLeft s - 1"
      using ge lt by (simp add: AddInt32_def int32_id)
    have "count_of took_branch (subs s')
            = count_of took_branch (subs s) + (if 0 < qSubsLeft s - 1 then 1 else 0)"
      using AtDecr w(1) nd a
      by (simp add: count_of_update) (simp add: took_branch_def decremented_def)
    moreover have "count_of decremented (subs s') = count_of decremented (subs s) + 1"
      using AtDecr w(1) nd by (simp add: count_of_update) (simp add: decremented_def)
    moreover have "qSubsLeft s' = qSubsLeft s - 1" using AtDecr(2) a by simp
    ultimately show ?thesis using inv ge by (auto split: if_splits)
  next
    case AtSubClose
    have "count_of took_branch (subs s') = count_of took_branch (subs s)"
      "count_of decremented (subs s') = count_of decremented (subs s)"
      using AtSubClose w(1)
      by (simp_all add: count_of_update_same took_branch_def decremented_def)
    then show ?thesis using inv AtSubClose(2) by simp
  next
    case AtPublish
    have "count_of took_branch (subs s') = count_of took_branch (subs s)"
      "count_of decremented (subs s') = count_of decremented (subs s)"
      using AtPublish w(1)
      by (simp_all add: count_of_update_same took_branch_def decremented_def)
    then show ?thesis using inv AtPublish(2) by simp
  next
    case AtConnClose
    have "count_of took_branch (subs s') = count_of took_branch (subs s)"
      "count_of decremented (subs s') = count_of decremented (subs s)"
      using AtConnClose w(1)
      by (simp_all add: count_of_update_same took_branch_def decremented_def)
    then show ?thesis using inv AtConnClose(2) by simp
  qed
qed

lemma branch_run:
  assumes q: "queue fl \<noteq> []" and k: "1 \<le> numSubs fl"
    and b: "numSubs fl + int avail < 2147483648"
    and r: "run fl evs (init_sys fl avail) = Some s"
  shows "count_of took_branch (subs s) + (if qSubsLeft s = 0 then 1 else 0)
                \<le> count_of decremented (subs s)"
  using r
proof (induction rule: run_history_induct)
  case init
  have "numSubs fl < 2147483648" using b by simp
  then show ?case using q k
    by (simp add: init_sys_def count_of_replicate took_branch_def decremented_def
        init_subscriber_def int32_id)
next
  case (step es s e s')
  have b0: "0 \<le> numSubs fl" using k by simp
  from branch_step [OF q b step.hyps(2) counters_run [OF q b0 b step.hyps(1)] step.IH]
  show ?case .
qed

lemma sentinels_bound:
  assumes q: "queue fl \<noteq> []" and k: "1 \<le> numSubs fl"
    and b: "numSubs fl + int avail < 2147483648"
    and r: "run fl evs (init_sys fl avail) = Some s"
  shows "count_of sent_ok (subs s) \<le> numSubs fl - 1"
proof -
  have b0: "0 \<le> numSubs fl" using k by simp
  note cnt = counters_run [OF q b0 b r]
  have iq: "isQueue fl" using q by (simp add: isQueue_def)
  have "\<forall>m \<in> set (subs s). sent_ok m \<longrightarrow> took_branch m"
  proof (intro ballI impI)
    fix m assume m: "m \<in> set (subs s)" and so: "sent_ok m"
    from m obtain i where "i < length (subs s)" "m = subs s ! i"
      by (auto simp: in_set_conv_nth)
    then have "course fl m" using course_run [OF r] by blast
    then show "took_branch m" using so iq
      by (cases "pc m")
         (auto simp: course_def sent_ok_def took_branch_def decremented_def split: if_splits)
  qed
  then have "count_of sent_ok (subs s) \<le> count_of took_branch (subs s)"
    by (rule count_of_mono)
  moreover note branch_run [OF q k b r]
  moreover have "count_of decremented (subs s) = numSubs fl - qSubsLeft s"
    using cnt by (simp add: counters_inv_def)
  moreover have "0 \<le> qSubsLeft s"
    using cnt count_of_bounds(2) [of decremented "subs s"] by (simp add: counters_inv_def)
  ultimately show ?thesis by (auto split: if_splits)
qed

lemma nothing_to_deliver:
  assumes "queue fl \<noteq> []" and "run fl evs (init_sys fl 0) = Some s"
  shows "subs s = subs (init_sys fl 0) \<and> pending s = 0"
  using assms(2)
proof (induction rule: run_history_induct)
  case init
  then show ?case by (simp add: init_sys_def)
next
  case (step es s e s')
  note st = step.hyps(2)
  have iq: "isQueue fl" using assms(1) by (simp add: isQueue_def)
  show ?case
  proof (cases e)
    case (Deliver i t)
    from step_DeliverD(5) [OF st [unfolded Deliver] iq] step.IH show ?thesis by simp
  next
    case (Work i t ok)
    note w = step_WorkD [OF st [unfolded Work]]
    have "subs s ! i = init_subscriber"
      using w(1) step.IH by (simp add: init_sys_def)
    then have "work fl i t ok s = None"
      by (simp add: work_def recv_def init_subscriber_def)
    then show ?thesis using w(3) by simp
  next
    case (ConnLost i)
    from step_ConnLostD(1) [OF st [unfolded ConnLost]] step.IH show ?thesis by simp
  qed
qed

section \<open>Properties of the message shares\<close>

lemma length_add_extra: "length (add_extra k counts) = length counts"
  by (induction k counts rule: add_extra.induct) simp_all

lemma sum_list_add_extra:
  "sum_list (add_extra k counts) = sum_list counts + min k (length counts)"
  by (induction k counts rule: add_extra.induct) simp_all

lemma nth_add_extra:
  "i < length counts \<Longrightarrow>
     add_extra k counts ! i = counts ! i + (if i < k then 1 else 0)"
proof (induction k counts arbitrary: i rule: add_extra.induct)
  case (3 k c counts)
  then show ?case by (cases i) simp_all
qed simp_all

lemma length_MessageShares: "length (MessageShares n p) = p"
  by (simp add: MessageShares_def length_add_extra)

lemma nth_MessageShares:
  "i < p \<Longrightarrow>
     MessageShares n p ! i = n div p + (if i < n mod p then 1 else 0)"
  by (simp add: MessageShares_def nth_add_extra)

lemma sum_list_MessageShares:
  assumes "0 < p"
  shows "sum_list (MessageShares n p) = n"
proof -
  have "n mod p < p" using assms by simp
  then have "min (n mod p) p = n mod p" by simp
  then show ?thesis
    by (simp add: MessageShares_def sum_list_add_extra sum_list_replicate)
qed

lemma MessageShares_bounds:
  assumes "x \<in> set (MessageShares n p)"
  shows "n div p \<le> x \<and> x \<le> n div p + 1"
proof -
  from assms obtain i where i: "i < length (MessageShares n p)"
    and x: "x = MessageShares n p ! i"
    by (auto simp: in_set_conv_nth)
  from i have "i < p" by (simp add: length_MessageShares)
  then show ?thesis using x by (simp add: nth_MessageShares)
qed

lemma MessageShares_spread:
  assumes "0 < p"
  shows "Max (set (MessageShares n p)) - Min (set (MessageShares n p)) \<le> 1"
proof -
  let ?S = "set (MessageShares n p)"
  have ne: "?S \<noteq> {}"
    using assms length_MessageShares [of n p] by auto
  have "Max ?S \<in> ?S" using ne by (intro Max_in) simp_all
  then have hi: "Max ?S \<le> n div p + 1" using MessageShares_bounds by blast
  have "Min ?S \<in> ?S" using ne by (intro Min_in) simp_all
  then have lo: "n div p \<le> Min ?S" using MessageShares_bounds by blast
  from hi lo show ?thesis by arith
qed

text \<open>
  Claim C1.  For every total and every publisher count \<open>p > 0\<close> the shares are one per
  publisher, they sum to the total, the largest and the smallest share differ by at most
  one, and publisher \<open>i\<close> receives the quotient plus one extra message exactly when
  \<open>i < total mod p\<close>, so the extra messages go to the lowest-indexed publishers.  The
  shares are a function of the two inputs alone, hence the same for identical inputs;
  for 1000 messages and 3 publishers they are 334, 333, 333.
\<close>

theorem MessageShares_even_split:
  "0 < p \<Longrightarrow>
     length (MessageShares n p) = p
   \<and> sum_list (MessageShares n p) = n
   \<and> Max (set (MessageShares n p)) - Min (set (MessageShares n p)) \<le> 1
   \<and> (\<forall>i < p. MessageShares n p ! i
                = n div p + (if i < n mod p then 1 else 0))
   \<and> MessageShares 1000 3 = [334, 333, 333]"
proof -
  assume p: "0 < p"
  have ex: "MessageShares 1000 3 = [334, 333, 333]"
    by code_simp
  show ?thesis
    using p ex length_MessageShares sum_list_MessageShares MessageShares_spread
      nth_MessageShares by blast
qed

theorem MessageShares_even_split_witness:
  "(0::nat) < 3
   \<and> length (MessageShares 1000 3) = 3
   \<and> sum_list (MessageShares 1000 3) = 1000
   \<and> Max (set (MessageShares 1000 3)) - Min (set (MessageShares 1000 3)) \<le> 1
   \<and> MessageShares 1000 3 ! 0 = 334
   \<and> MessageShares 1000 3 ! 2 = 333"
proof -
  have p: "(0::nat) < 3" by simp
  have nth0: "MessageShares 1000 3 ! 0 = 334" by code_simp
  have nth2: "MessageShares 1000 3 ! 2 = 333" by code_simp
  show ?thesis
    using MessageShares_even_split [OF p, of 1000] nth0 nth2 by simp
qed

section \<open>Argument validation\<close>

text \<open>
  Claim C9, as stated, at a concrete input.  The claim has a TLS URL that comes with a
  credentials file alone pass the validation.  The code asks for the certificate
  directory, or the certificate file and key, whatever \<^verbatim>\<open>-creds\<close> is: with the URL
  \<^verbatim>\<open>tls://localhost:4222\<close>, the credentials file \<^verbatim>\<open>user.creds\<close> and one
  positional argument it ends in \<^verbatim>\<open>usage()\<close>, where the claim's condition is false.
\<close>

theorem tls_with_credentials_only_counterexample:
  "connect_options no_pem_files
     (default_flags\<lparr>urls := ''tls://localhost:4222'', userCreds := ''user.creds''\<rparr>)
     [''foo''] = Inl Usage
   \<and> \<not> claimed_usage
         (default_flags\<lparr>urls := ''tls://localhost:4222'', userCreds := ''user.creds''\<rparr>)
         [''foo'']"
  by (simp add: connect_options_def claimed_usage_def default_flags_def)

text \<open>
  Claim C9, amended.  The validation prints usage and ends the process exactly when the
  number of positional arguments is not one, or the server URLs contain \<^verbatim>\<open>tls://\<close>
  while the certificate directory is empty and the certificate file or its key is empty.
  The credentials file has no part in it.
\<close>

theorem connect_options_usage_iff:
  "connect_options glob fl args = Inl Usage \<longleftrightarrow>
     length args \<noteq> 1
     \<or> (Contains (urls fl) ''tls://'' \<and> certDir fl = []
        \<and> (certFile fl = [] \<or> certKey fl = []))"
  by (simp add: connect_options_def Let_def)

theorem connect_options_usage_iff_witness:
  "connect_options no_pem_files
     (default_flags\<lparr>urls := ''tls://localhost:4222'', certFile := ''c.pem'',
        certKey := ''k.pem''\<rparr>)
     [''foo''] \<noteq> Inl Usage
   \<and> connect_options no_pem_files
     (default_flags\<lparr>urls := ''tls://localhost:4222'', userCreds := ''user.creds''\<rparr>)
     [''foo''] = Inl Usage"
  using connect_options_usage_iff [of no_pem_files
     "default_flags\<lparr>urls := ''tls://localhost:4222'', certFile := ''c.pem'',
        certKey := ''k.pem''\<rparr>"
     "[''foo'']"]
    connect_options_usage_iff [of no_pem_files
     "default_flags\<lparr>urls := ''tls://localhost:4222'', userCreds := ''user.creds''\<rparr>"
     "[''foo'']"]
  by (simp add: default_flags_def)

section \<open>The payload of the publishers\<close>

lemma length_msg_literal: "length msg_literal = 1912"
  by (simp add: msg_literal_def)

lemma length_publisher_msg:
  "length (publisher_msg msgSize) = (if 0 < msgSize then 1912 else 0)"
  by (simp add: publisher_msg_def length_msg_literal)

text \<open>
  Claim C8, at the default message size.  A synchronous publisher with one message to
  send and \<^verbatim>\<open>-ms 128\<close> hands a payload of 1912 bytes to the collaborator, the
  literal of line 172, and records the message size 128 in its sample.
\<close>

theorem publisher_payload_ignores_message_size:
  "map_option (\<lambda>p. (map length (wire p), map_option msgSz (psample p)))
     (pub_run \<lparr>p_numMsgs = 1, p_msgSize = 128, p_sync = True\<rparr>
        [Call 5 False, Call 6 False, Call 7 False, Call 8 False] init_publisher)
   = Some ([1912], Some 128)"
  by (simp add: pub_step_def pub_call_def init_publisher_def publisher_msg_def
      length_msg_literal)

section \<open>Completion of the asynchronous publisher\<close>

text \<open>
  Claim C6, at a share of no messages.  An asynchronous publisher whose share is zero (or
  less) issues no \<^verbatim>\<open>PublishAsync\<close>, so its handler is never invoked and nothing is
  ever sent on \<^verbatim>\<open>ch\<close>: whatever happens, the worker does not get past the receive of
  line 195, records no sample and does not complete, although all of its zero
  acknowledgments have arrived.
\<close>

theorem async_publisher_without_messages_never_completes:
  assumes "p_numMsgs a \<le> 0" and "\<not> p_sync a"
    and "pub_run a evs init_publisher = Some p"
  shows "ppc p \<noteq> AtPubSample \<and> ppc p \<noteq> PubClosing \<and> ppc p \<noteq> PubDone
         \<and> psample p = None"
proof -
  have "waits_unfired init_publisher"
    by (simp add: waits_unfired_def init_publisher_def)
  then have "waits_unfired p"
    using assms waits_unfired_run by blast
  then show ?thesis by (auto simp: waits_unfired_def)
qed

lemma async_run_to_wait:
  "pub_run \<lparr>p_numMsgs = 0, p_msgSize = 128, p_sync = False\<rparr>
     [Call 5 False, Call 6 False] init_publisher
   = Some (init_publisher\<lparr>msg := msg_literal, ppc := AsyncWait, pstart := 5\<rparr>)"
  by (simp add: pub_step_def pub_call_def init_publisher_def publisher_msg_def)

theorem async_publisher_without_messages_never_completes_witness:
  "map_option ppc (pub_run \<lparr>p_numMsgs = 0, p_msgSize = 128, p_sync = False\<rparr>
     [Call 5 False, Call 6 False] init_publisher) = Some AsyncWait
   \<and> map_option psample (pub_run \<lparr>p_numMsgs = 0, p_msgSize = 128, p_sync = False\<rparr>
     [Call 5 False, Call 6 False] init_publisher) = Some None
   \<and> pub_step \<lparr>p_numMsgs = 0, p_msgSize = 128, p_sync = False\<rparr> (Call 7 False)
       (init_publisher\<lparr>msg := msg_literal, ppc := AsyncWait, pstart := 5\<rparr>) = None
   \<and> pub_step \<lparr>p_numMsgs = 0, p_msgSize = 128, p_sync = False\<rparr> (Ack False)
       (init_publisher\<lparr>msg := msg_literal, ppc := AsyncWait, pstart := 5\<rparr>) = None"
proof -
  have a: "p_numMsgs \<lparr>p_numMsgs = 0, p_msgSize = 128, p_sync = False\<rparr> \<le> 0"
    and b: "\<not> p_sync \<lparr>p_numMsgs = 0, p_msgSize = 128, p_sync = False\<rparr>" by simp_all
  have c: "pub_step \<lparr>p_numMsgs = 0, p_msgSize = 128, p_sync = False\<rparr> (Call 7 False)
       (init_publisher\<lparr>msg := msg_literal, ppc := AsyncWait, pstart := 5\<rparr>) = None"
    by (simp add: pub_step_def pub_call_def init_publisher_def)
  have d: "pub_step \<lparr>p_numMsgs = 0, p_msgSize = 128, p_sync = False\<rparr> (Ack False)
       (init_publisher\<lparr>msg := msg_literal, ppc := AsyncWait, pstart := 5\<rparr>) = None"
    by (simp add: pub_step_def pub_call_def init_publisher_def)
  show ?thesis
    unfolding async_run_to_wait
    using async_publisher_without_messages_never_completes [OF a b async_run_to_wait] c d
    by simp
qed

section \<open>Publish errors\<close>

text \<open>
  The publisher ends the process on an error of a synchronous publish, of an asynchronous
  publish call and of an acknowledgment, and nothing happens afterwards.
\<close>

lemma sync_publish_error_fatal:
  "pfatal p = None \<Longrightarrow> ppc p = SyncLoop \<Longrightarrow> idx p < p_numMsgs a \<Longrightarrow>
     pub_step a (Call t True) p = Some (p\<lparr>pfatal := Some PublishFailed\<rparr>)"
  by (simp add: pub_step_def pub_call_def)

lemma async_publish_error_fatal:
  "pfatal p = None \<Longrightarrow> ppc p = AsyncLoop \<Longrightarrow> idx p < p_numMsgs a \<Longrightarrow>
     pub_step a (Call t True) p = Some (p\<lparr>pfatal := Some PublishAsyncFailed\<rparr>)"
  by (simp add: pub_step_def pub_call_def)

lemma ack_error_fatal:
  "pfatal p = None \<Longrightarrow> 0 < unacked p \<Longrightarrow> \<not> acb_blocked p \<Longrightarrow>
     pub_step a (Ack True) p
       = Some (p\<lparr>unacked := unacked p - 1, pfatal := Some AckFailed\<rparr>)"
  by (simp add: pub_step_def acb_def)

lemma pub_step_after_fatal: "pfatal p \<noteq> None \<Longrightarrow> pub_step a e p = None"
  by (simp add: pub_step_def)

text \<open>
  Claim C7, at a failing sentinel publish.  A queue group of two members with one message
  to receive: member 0 receives it, takes both timestamps off its channel, records its
  sample, decrements \<^verbatim>\<open>qSubsLeft\<close> to 1, closes its subscription, and its publish of
  line 268 fails.  The error is dropped: the process has not ended, the worker closes its
  connection and is done, no message is pending, and member 1 still waits for its first
  delivery.
\<close>

theorem sentinel_publish_error_is_dropped:
  "map_option (\<lambda>s. (terminated s, pending s, map pc (subs s), acts (subs s ! 0)))
     (run (default_flags\<lparr>queue := ''g'', numSubs := 2, numMsgs := 1\<rparr>)
        [Deliver 0 10, Work 0 11 True, Work 0 12 True, Work 0 13 True, Work 0 14 True,
         Work 0 15 True, Work 0 16 False, Work 0 17 True]
        (init_sys (default_flags\<lparr>queue := ''g'', numSubs := 2, numMsgs := 1\<rparr>) 1))
   = Some (None, 0, [Finished, AwaitStart],
       [AddSubSample \<lparr>jobMsgCnt = 1, msgSz = 128, sStart = 10, sEnd = 10\<rparr>,
        Decrement 1, SubClose, PublishDone False, ConnClose])"
  by code_simp

section \<open>The termination handshake of a queue member\<close>



section \<open>The completion signal of a subscriber outside a queue group\<close>




section \<open>The message count of a subscriber's sample\<close>

text \<open>
  Claim C10, as stated, at a queue group of one member.  The claim has the recorded count
  equal the target only for a subscriber outside a queue group.  The single member of a
  queue group with the target 1 receives the one message and records the count 1, the
  target; so does any member to which all the messages go.
\<close>

theorem queue_member_sample_counterexample:
  "isQueue (default_flags\<lparr>queue := ''g'', numSubs := 1, numMsgs := 1\<rparr>)
   \<and> numMsgs (default_flags\<lparr>queue := ''g'', numSubs := 1, numMsgs := 1\<rparr>) = 1
   \<and> map_option (\<lambda>s. acts (subs s ! 0))
       (run (default_flags\<lparr>queue := ''g'', numSubs := 1, numMsgs := 1\<rparr>)
          [Deliver 0 10, Work 0 11 True, Work 0 12 True, Work 0 13 True]
          (init_sys (default_flags\<lparr>queue := ''g'', numSubs := 1, numMsgs := 1\<rparr>) 1))
     = Some [AddSubSample \<lparr>jobMsgCnt = 1, msgSz = 128, sStart = 10, sEnd = 10\<rparr>]"
  by code_simp

text \<open>
  Claim C10, amended.  The message count of a subscriber's sample is the worker's local
  counter at the moment the worker builds the sample, the statement after the receive of
  its completion signal: the number of deliveries to this subscriber so far, sentinels and
  deliveries that arrive after the signal was taken included.  It is at least 1; for a
  subscriber outside a queue group with a target \<open>N \<ge> 1\<close> it is at least \<open>N\<close>;
  and it is the target exactly when the subscriber has had that many deliveries by then,
  in a queue group or not.
\<close>

theorem sample_counts_own_deliveries:
  assumes "run fl evs (init_sys fl avail) = Some s" and "i < length (subs s)"
    and "pc (subs s ! i) = AtSample" and "step fl (Work i t ok) s = Some s'"
  shows "acts (subs s' ! i)
           = [AddSubSample \<lparr>jobMsgCnt = int (length (deliveries i evs)),
                msgSz = messageSize fl, sStart = start_ts (subs s ! i),
                sEnd = end_ts (subs s ! i)\<rparr>]
       \<and> 1 \<le> length (deliveries i evs)
       \<and> (queue fl = [] \<and> 1 \<le> numMsgs fl \<longrightarrow>
            numMsgs fl \<le> int (length (deliveries i evs)))"
proof -
  let ?m = "subs s ! i" and ?ds = "deliveries i evs"
  have rc: "received ?m = int (length ?ds)"
    using received_run [OF assms(1)] assms(2) by blast
  have "course fl ?m" using course_run [OF assms(1)] assms(2) by blast
  then have a0: "acts ?m = []" using assms(3) by (simp add: course_def)
  from step_WorkD(3) [OF assms(4)]
  have s': "s' = s\<lparr>subs := (subs s)[i := ?m
               \<lparr>acts := acts ?m @ [AddSubSample
                    \<lparr>jobMsgCnt = received ?m, msgSz = messageSize fl,
                      sStart = start_ts ?m, sEnd = end_ts ?m\<rparr>],
                 pc := (if isQueue fl then AtDecr else AtConnClose)\<rparr>]\<rparr>"
    using assms(3) by (cases rule: work_cases) simp_all
  have first: "acts (subs s' ! i)
           = [AddSubSample \<lparr>jobMsgCnt = int (length ?ds), msgSz = messageSize fl,
                sStart = start_ts ?m, sEnd = end_ts ?m\<rparr>]"
    using s' assms(2) a0 rc by simp
  have ci: "chan_inv fl ?ds ?m" using chan_inv_run [OF assms(1)] assms(2) by blast
  then have "?ds \<noteq> []" using assms(3) by (auto simp: chan_inv_def)
  then have second: "1 \<le> length ?ds" by (cases ?ds) simp_all
  have third: "numMsgs fl \<le> int (length ?ds)" if "queue fl = [] \<and> 1 \<le> numMsgs fl"
    using plain_signal_facts [OF _ _ assms(1,2)] that assms(3) by simp
  from first second third show ?thesis by blast
qed

theorem sample_counts_own_deliveries_witness:
  "map_option (\<lambda>s. (acts (subs s ! 0), received (subs s ! 0)))
     (run (default_flags\<lparr>numSubs := 1, numMsgs := 1\<rparr>)
        [Deliver 0 10, Work 0 11 True, Work 0 12 True, Deliver 0 20, Work 0 21 True]
        (init_sys (default_flags\<lparr>numSubs := 1, numMsgs := 1\<rparr>) 0))
   = Some ([AddSubSample \<lparr>jobMsgCnt = 2, msgSz = 128, sStart = 10, sEnd = 10\<rparr>], 2)
   \<and> length (deliveries 0 [Deliver 0 10, Work 0 11 True, Work 0 12 True, Deliver 0 20]) = 2"
  (is "?a \<and> ?b")
proof -
  let ?fl = "default_flags\<lparr>numSubs := 1, numMsgs := 1\<rparr>"
  let ?evs = "[Deliver 0 10, Work 0 11 True, Work 0 12 True, Deliver 0 20]"
  let ?s = "the (run ?fl ?evs (init_sys ?fl 0))"
  have r: "run ?fl ?evs (init_sys ?fl 0) = Some ?s" by code_simp
  have l: "0 < length (subs ?s)" by code_simp
  have p: "pc (subs ?s ! 0) = AtSample" by code_simp
  have st: "step ?fl (Work 0 21 True) ?s = Some (the (step ?fl (Work 0 21 True) ?s))"
    by code_simp
  have a: ?a by code_simp
  have b: ?b by code_simp
  from sample_counts_own_deliveries [OF r l p st] a b show ?thesis by blast
qed

section \<open>The invariant of the shared counters\<close>




section \<open>Termination of a queue group\<close>

text \<open>
  Claim C4, as stated, at the target 0.  A queue group of one member with
  \<^verbatim>\<open>numMsgs = 0\<close> and no message on the subject: no delivery can happen, the worker
  cannot get past its first receive, and no run ever takes the member out of it.  The
  shared counter is at the target from the start, and the member blocks forever.
\<close>

theorem zero_target_queue_blocks_counterexample:
  "\<not> (\<exists>evs s. run (default_flags\<lparr>queue := ''g'', numSubs := 1, numMsgs := 0\<rparr>) evs
               (init_sys (default_flags\<lparr>queue := ''g'', numSubs := 1, numMsgs := 0\<rparr>) 0)
               = Some s
             \<and> pc (subs s ! 0) \<noteq> AwaitStart)"
proof
  let ?fl = "default_flags\<lparr>queue := ''g'', numSubs := 1, numMsgs := 0\<rparr>"
  assume "\<exists>evs s. run ?fl evs (init_sys ?fl 0) = Some s \<and> pc (subs s ! 0) \<noteq> AwaitStart"
  then obtain evs s where r: "run ?fl evs (init_sys ?fl 0) = Some s"
    and p: "pc (subs s ! 0) \<noteq> AwaitStart" by blast
  have q: "queue ?fl \<noteq> []" by simp
  from nothing_to_deliver [OF q r] have "subs s = subs (init_sys ?fl 0)" by simp
  then have "pc (subs s ! 0) = AwaitStart"
    by (simp add: init_sys_def default_flags_def init_subscriber_def)
  with p show False by simp
qed

text \<open>
  Claim C4, amended.  Take a queue group of \<open>K \<ge> 1\<close> members with a target
  \<open>N \<ge> 0\<close>, at least one message and at least \<open>N\<close> messages on the subject,
  members and messages together below \<open>2\<^sup>3\<^sup>1\<close>, every publish of a sentinel
  successful and no connection lost.  After any events, \<^verbatim>\<open>qTotalRecv\<close> is the number
  of deliveries so far, so that it has the value \<open>N\<close> once, until the next delivery.
  The events so far and the work still ahead (pending messages and remaining statements of
  the workers) never exceed the messages of the start plus eight per member, which bounds
  every run.  Unless every member is done, some worker can execute its next statement or
  some delivery can happen: there is no deadlock, however the deliveries were spread over
  the members.  Hence every run that goes on as long as it can ends with all members done.
  At most \<open>K - 1\<close> sentinels are published.
\<close>

theorem queue_group_terminates:
  assumes "queue fl \<noteq> []" and "1 \<le> numSubs fl" and "0 \<le> numMsgs fl"
    and "numMsgs fl \<le> int avail" and "1 \<le> avail"
    and "numSubs fl + int avail < 2147483648"
    and "all_ok evs" and "run fl evs (init_sys fl avail) = Some s"
    and "terminated s = None"
  shows "qTotalRecv s = int (delivered evs)
       \<and> length evs + effort s \<le> avail + 8 * nat (numSubs fl)
       \<and> ((\<forall>i < length (subs s). pc (subs s ! i) = Finished)
          \<or> (\<exists>i t. step fl (Work i t True) s \<noteq> None \<or> step fl (Deliver i t) s \<noteq> None))
       \<and> count_of sent_ok (subs s) \<le> numSubs fl - 1"
proof -
  have b0: "0 \<le> numSubs fl" using assms(2) by simp
  have iq: "isQueue fl" using assms(1) by (simp add: isQueue_def)
  have 1: "qTotalRecv s = int (delivered evs)"
    using counters_run [OF assms(1) b0 assms(6,8)] by (simp add: counters_inv_def)
  have 2: "length evs + effort s \<le> avail + 8 * nat (numSubs fl)"
    using effort_run [OF iq assms(8)] assms(9) by simp
  note 3 = queue_progress [OF assms]
  note 4 = sentinels_bound [OF assms(1,2,6,8)]
  from 1 2 3 4 show ?thesis by blast
qed

theorem queue_group_terminates_witness:
  "map_option (\<lambda>s. (qTotalRecv s, map pc (subs s), effort s, count_of sent_ok (subs s)))
     (run (default_flags\<lparr>queue := ''g'', numSubs := 2, numMsgs := 0\<rparr>)
        [Deliver 0 10, Work 0 11 True, Work 0 12 True, Work 0 13 True, Work 0 14 True,
         Work 0 15 True, Work 0 16 True, Work 0 17 True, Deliver 1 18, Work 1 19 True,
         Work 1 20 True, Work 1 21 True, Work 1 22 True, Work 1 23 True]
        (init_sys (default_flags\<lparr>queue := ''g'', numSubs := 2, numMsgs := 0\<rparr>) 1))
   = Some (2, [Finished, Finished], 0, 1)"
  (is "?a")
proof -
  let ?fl = "default_flags\<lparr>queue := ''g'', numSubs := 2, numMsgs := 0\<rparr>"
  let ?evs = "[Deliver 0 10, Work 0 11 True, Work 0 12 True, Work 0 13 True, Work 0 14 True,
         Work 0 15 True, Work 0 16 True, Work 0 17 True, Deliver 1 18, Work 1 19 True,
         Work 1 20 True, Work 1 21 True, Work 1 22 True, Work 1 23 True]"
  let ?s = "the (run ?fl ?evs (init_sys ?fl 1))"
  have q: "queue ?fl \<noteq> []" by code_simp
  have k: "1 \<le> numSubs ?fl" by code_simp
  have n: "0 \<le> numMsgs ?fl" by code_simp
  have na: "numMsgs ?fl \<le> int 1" by code_simp
  have a1: "1 \<le> (1::nat)" by simp
  have b: "numSubs ?fl + int 1 < 2147483648" by code_simp
  have ok: "all_ok ?evs" by code_simp
  have r: "run ?fl ?evs (init_sys ?fl 1) = Some ?s" by code_simp
  have t: "terminated ?s = None" by code_simp
  have a: ?a by code_simp
  from queue_group_terminates [OF q k n na a1 b ok r t] a show ?thesis by blast
qed

end
